theory Spec2Isabelle
  imports Complex_Main "HOL-Library.Monad_Syntax" "HOL-Library.Multiset"
begin

section \<open>Thrill Digger solver: configuration and cell contents (solver.h)\<close>

text \<open>
  The C++ \<open>int\<close> values of the solver never leave the range of a few hundred, so
  no wrap-around is modelled. Cell indices, vector positions and counters that are only
  ever incremented from zero are \<open>nat\<close>; quantities the source subtracts from
  (\<open>remainingBad\<close>, the bounds of a constraint, the row and column arithmetic of
  \<open>getNeighbors\<close>) are \<open>int\<close>. A \<open>double\<close> is modelled as a \<open>real\<close>: the
  arithmetic of the model is exact.
\<close>

definition ROWS :: nat where "ROWS = 5"
definition COLS :: nat where "COLS = 8"
definition TOTAL_CELLS :: nat where "TOTAL_CELLS = ROWS * COLS"
definition TOTAL_BAD :: nat where "TOTAL_BAD = 16"

datatype CellContent = Undug | Green | Blue | Red | Silver | Gold | Rupoor | Bomb

fun badNeighborRange :: "CellContent \<Rightarrow> int \<times> int" where
  "badNeighborRange Green = (0, 0)"
| "badNeighborRange Blue = (1, 2)"
| "badNeighborRange Red = (3, 4)"
| "badNeighborRange Silver = (5, 6)"
| "badNeighborRange Gold = (7, 8)"
| "badNeighborRange _ = (-1, -1)"

fun isRevealedGood :: "CellContent \<Rightarrow> bool" where
  "isRevealedGood Green = True"
| "isRevealedGood Blue = True"
| "isRevealedGood Red = True"
| "isRevealedGood Silver = True"
| "isRevealedGood Gold = True"
| "isRevealedGood _ = False"

definition isRevealedBad :: "CellContent \<Rightarrow> bool" where
  "isRevealedBad c = (c = Rupoor \<or> c = Bomb)"

definition isRevealed :: "CellContent \<Rightarrow> bool" where
  "isRevealed c = (c \<noteq> Undug)"

section \<open>The solver object: \<open>reset\<close>, \<open>setCell\<close>, \<open>getNeighbors\<close>\<close>

text \<open>
  The two \<open>std::array\<close> members hold \<open>TOTAL_CELLS\<close> entries each; the lists of the
  record have that length in every state the class can be in (\<open>wf_solver\<close>).
\<close>

record ThrillDiggerSolver =
  grid :: "CellContent list"
  badProb :: "real list"

definition wf_solver :: "ThrillDiggerSolver \<Rightarrow> bool" where
  "wf_solver s = (length (grid s) = TOTAL_CELLS \<and> length (badProb s) = TOTAL_CELLS)"

definition reset :: "ThrillDiggerSolver \<Rightarrow> ThrillDiggerSolver" where
  "reset s =
     (let prior = real TOTAL_BAD / real TOTAL_CELLS
      in s\<lparr>grid := replicate TOTAL_CELLS Undug, badProb := replicate TOTAL_CELLS prior\<rparr>)"

text \<open>\<open>setCell\<close> does not check its coordinates; an index outside the array is
  undefined behaviour in the source and \<open>None\<close> here.\<close>

definition setCell :: "int \<Rightarrow> int \<Rightarrow> CellContent \<Rightarrow> ThrillDiggerSolver \<Rightarrow> ThrillDiggerSolver option" where
  "setCell row col content s =
     (let i = row * int COLS + col
      in if 0 \<le> i \<and> i < int (length (grid s))
         then Some (s\<lparr>grid := (grid s)[nat i := content]\<rparr>)
         else None)"

text \<open>
  \<open>getNeighbors\<close>: the two nested loops over \<open>dr, dc = -1, 0, 1\<close>, in the order of
  the source. The argument is a cell index, never negative, so the truncating division
  of C++ is \<open>div\<close>.
\<close>

definition getNeighbors :: "nat \<Rightarrow> nat list" where
  "getNeighbors idx =
     (let r = int idx div int COLS; c = int idx mod int COLS
      in concat (map (\<lambda>dr. concat (map (\<lambda>dc.
           if dr = 0 \<and> dc = 0 then []
           else (let nr = r + dr; nc = c + dc
                 in if nr \<ge> 0 \<and> nr < int ROWS \<and> nc \<ge> 0 \<and> nc < int COLS
                    then [nat (nr * int COLS + nc)] else []))
         [-1, 0, 1])) [-1, 0, 1]))"

text \<open>Row and column of a cell, and the three kinds of position on the board.\<close>

definition rowOf :: "nat \<Rightarrow> nat" where "rowOf idx = idx div COLS"
definition colOf :: "nat \<Rightarrow> nat" where "colOf idx = idx mod COLS"

definition onRowBorder :: "nat \<Rightarrow> bool" where
  "onRowBorder idx = (rowOf idx = 0 \<or> rowOf idx = ROWS - 1)"
definition onColBorder :: "nat \<Rightarrow> bool" where
  "onColBorder idx = (colOf idx = 0 \<or> colOf idx = COLS - 1)"

definition adjacent :: "nat \<Rightarrow> nat \<Rightarrow> bool" where
  "adjacent idx n =
     (n < TOTAL_CELLS \<and> n \<noteq> idx
      \<and> \<bar>int (rowOf n) - int (rowOf idx)\<bar> \<le> 1 \<and> \<bar>int (colOf n) - int (colOf idx)\<bar> \<le> 1)"

definition neighborCount :: "nat \<Rightarrow> nat" where
  "neighborCount idx =
     (if onRowBorder idx \<and> onColBorder idx then 3
      else if onRowBorder idx \<or> onColBorder idx then 5 else 8)"

definition neighbors_ok :: "nat \<Rightarrow> bool" where
  "neighbors_ok idx =
     (distinct (getNeighbors idx)
      \<and> list_all (adjacent idx) (getNeighbors idx)
      \<and> list_all (\<lambda>n. adjacent idx n \<longrightarrow> n \<in> set (getNeighbors idx)) [0..<TOTAL_CELLS]
      \<and> length (getNeighbors idx) = neighborCount idx)"

section \<open>Properties of \<open>reset\<close> and \<open>getNeighbors\<close>\<close>

lemma neighbors_ok_all: "list_all neighbors_ok [0..<TOTAL_CELLS]"
  by code_simp

text \<open>
  Claim C8. Immediately after \<open>reset\<close> every cell is \<open>Undug\<close> and every probability is
  the flat prior \<open>TOTAL_BAD / TOTAL_CELLS = 16 / 40 = 0.4\<close>; \<open>reset\<close> is a total
  function with no failing branch, and it leaves both arrays at their full length.
\<close>

theorem reset_prior:
  "grid (reset s) = replicate TOTAL_CELLS Undug
   \<and> badProb (reset s) = replicate TOTAL_CELLS (real TOTAL_BAD / real TOTAL_CELLS)
   \<and> real TOTAL_BAD / real TOTAL_CELLS = 0.4
   \<and> wf_solver (reset s)
   \<and> (\<forall>i. i < TOTAL_CELLS \<longrightarrow> grid (reset s) ! i = Undug \<and> badProb (reset s) ! i = 0.4)"
  by (simp add: reset_def wf_solver_def TOTAL_BAD_def TOTAL_CELLS_def ROWS_def COLS_def)

theorem reset_prior_witness:
  "(3::nat) < TOTAL_CELLS \<and> grid (reset \<lparr>grid = [], badProb = []\<rparr>) ! 3 = Undug
   \<and> badProb (reset \<lparr>grid = [], badProb = []\<rparr>) ! 3 = 0.4"
  using reset_prior [of "\<lparr>grid = [], badProb = []\<rparr>"]
  by (simp add: TOTAL_CELLS_def ROWS_def COLS_def)

text \<open>
  Claim C9. For every cell index of the 5x8 grid, \<open>getNeighbors\<close> returns, without
  repetition, exactly the in-bounds cells whose row and column differ by at most one from
  the cell's own, the cell itself excluded; a corner cell has 3 of them, a border cell
  that is not a corner has 5, an interior cell has 8.
\<close>

theorem getNeighbors_exact:
  assumes "idx < TOTAL_CELLS"
  shows "distinct (getNeighbors idx)
         \<and> set (getNeighbors idx) = {n. adjacent idx n}
         \<and> length (getNeighbors idx) =
             (if onRowBorder idx \<and> onColBorder idx then 3
              else if onRowBorder idx \<or> onColBorder idx then 5 else 8)"
proof -
  from assms neighbors_ok_all have ok: "neighbors_ok idx"
    by (simp add: list_all_iff)
  have sub: "set (getNeighbors idx) \<subseteq> {n. adjacent idx n}"
    using ok by (auto simp: neighbors_ok_def list_all_iff)
  have sup: "{n. adjacent idx n} \<subseteq> set (getNeighbors idx)"
  proof
    fix n assume "n \<in> {n. adjacent idx n}"
    then have a: "adjacent idx n" by simp
    then have "n < TOTAL_CELLS" by (simp add: adjacent_def)
    with ok a show "n \<in> set (getNeighbors idx)"
      by (simp add: neighbors_ok_def list_all_iff)
  qed
  from ok sub sup show ?thesis
    by (simp add: neighbors_ok_def neighborCount_def subset_antisym)
qed

theorem getNeighbors_exact_witness:
  "(0::nat) < TOTAL_CELLS \<and> length (getNeighbors 0) = 3
   \<and> length (getNeighbors 3) = 5 \<and> length (getNeighbors 9) = 8
   \<and> set (getNeighbors 0) = {n. adjacent 0 n}"
proof -
  have h0: "(0::nat) < TOTAL_CELLS" and h3: "(3::nat) < TOTAL_CELLS" and h9: "(9::nat) < TOTAL_CELLS"
    by (simp_all add: TOTAL_CELLS_def ROWS_def COLS_def)
  have b: "onRowBorder 0 \<and> onColBorder 0 \<and> onRowBorder 3 \<and> \<not> onColBorder 3
           \<and> \<not> onRowBorder 9 \<and> \<not> onColBorder 9"
    by (simp add: onRowBorder_def onColBorder_def rowOf_def colOf_def ROWS_def COLS_def)
  show ?thesis
    using getNeighbors_exact [OF h0] getNeighbors_exact [OF h3] getNeighbors_exact [OF h9] h0 b
    by simp
qed

section \<open>Component enumeration (\<open>enumerateComponent\<close>)\<close>

text \<open>
  A \<open>std::vector\<close> is a list. Reading or writing it outside its bounds is undefined
  behaviour in C++; the model returns \<open>None\<close> there, so that a run that yields
  \<open>Some\<close> has made no such access.
\<close>

definition vget :: "'a list \<Rightarrow> nat \<Rightarrow> 'a option" where
  "vget xs i = (if i < length xs then Some (xs ! i) else None)"

definition vset :: "'a list \<Rightarrow> nat \<Rightarrow> 'a \<Rightarrow> 'a list option" where
  "vset xs i v = (if i < length xs then Some (xs[i := v]) else None)"

text \<open>
  \<open>LocalConstraint\<close>: the cells of one clue inside a component (\<open>localIdx\<close>) and
  the bounds \<open>minBad\<close>, \<open>maxBad\<close> of the source, named \<open>lminBad\<close> and
  \<open>lmaxBad\<close> here to keep them apart from the fields of \<open>Constraint\<close>.
\<close>

record LocalConstraint =
  localIdx :: "nat list"
  lminBad :: int
  lmaxBad :: int

text \<open>The three vectors \<open>enumerateComponent\<close> mutates through its reference parameters.\<close>

record EnumState =
  assignment :: "nat list"
  counts :: "real list"
  badCnts :: "real list list"

text \<open>
  The innermost loop of \<open>enumerateComponent\<close>, over the cells \<open>li\<close> of one
  constraint: \<open>badCount\<close> sums the assignment of the cells already placed
  (\<open>orderPos[li] <= pos\<close>), \<open>unassignedCount\<close> counts the others.
\<close>

fun countAssigned :: "nat list \<Rightarrow> nat \<Rightarrow> nat list \<Rightarrow> nat list \<Rightarrow> nat \<times> nat \<Rightarrow> (nat \<times> nat) option" where
  "countAssigned [] pos orderPos asg acc = Some acc"
| "countAssigned (li # lis) pos orderPos asg (badCount, unassignedCount) =
     do {
       p \<leftarrow> vget orderPos li;
       if p \<le> pos
       then do { a \<leftarrow> vget asg li; countAssigned lis pos orderPos asg (badCount + a, unassignedCount) }
       else countAssigned lis pos orderPos asg (badCount, unassignedCount + 1)
     }"

text \<open>
  The loop over \<open>cellConstraints[cell]\<close> that computes \<open>valid\<close>; each
  \<open>valid = false; break\<close> of the source is a \<open>Some False\<close>.
\<close>

fun checkConstraints :: "nat list \<Rightarrow> LocalConstraint list \<Rightarrow> nat \<Rightarrow> nat list \<Rightarrow> nat list \<Rightarrow> bool option" where
  "checkConstraints [] lcs pos orderPos asg = Some True"
| "checkConstraints (ci # rest) lcs pos orderPos asg =
     do {
       lc \<leftarrow> vget lcs ci;
       (badCount, unassignedCount) \<leftarrow> countAssigned (localIdx lc) pos orderPos asg (0, 0);
       if int badCount > lmaxBad lc then Some False
       else if unassignedCount = 0
       then (if int badCount < lminBad lc then Some False
             else checkConstraints rest lcs pos orderPos asg)
       else (if int badCount + int unassignedCount < lminBad lc then Some False
             else checkConstraints rest lcs pos orderPos asg)
     }"

definition checkCell :: "nat \<Rightarrow> nat list list \<Rightarrow> LocalConstraint list \<Rightarrow> nat \<Rightarrow> nat list \<Rightarrow> nat list \<Rightarrow> bool option" where
  "checkCell cell cellConstraints lcs pos orderPos asg =
     do { rest \<leftarrow> vget cellConstraints cell; checkConstraints rest lcs pos orderPos asg }"

text \<open>The base case: \<open>counts[numBad] += 1.0\<close>, and \<open>badCnts[i][numBad] += 1.0\<close>
  for every cell \<open>i\<close> whose assignment is not zero.\<close>

definition bump :: "real list \<Rightarrow> nat \<Rightarrow> real list option" where
  "bump cs k = do { c \<leftarrow> vget cs k; vset cs k (c + 1) }"

fun recordBad :: "nat list \<Rightarrow> nat \<Rightarrow> nat list \<Rightarrow> real list list \<Rightarrow> real list list option" where
  "recordBad [] numBad asg bc = Some bc"
| "recordBad (i # is) numBad asg bc =
     do {
       a \<leftarrow> vget asg i;
       if a \<noteq> 0
       then do { row \<leftarrow> vget bc i; row' \<leftarrow> bump row numBad; recordBad is numBad asg (bc[i := row']) }
       else recordBad is numBad asg bc
     }"

definition recordConfig :: "nat \<Rightarrow> nat \<Rightarrow> EnumState \<Rightarrow> EnumState option" where
  "recordConfig compSize numBad st =
     do {
       cs \<leftarrow> bump (counts st) numBad;
       bc \<leftarrow> recordBad [0..<compSize] numBad (assignment st) (badCnts st);
       Some (st\<lparr>counts := cs, badCnts := bc\<rparr>)
     }"

text \<open>
  \<open>enumerateComponent\<close>. The loop \<open>for val = 0, 1\<close> is written out as its two
  iterations; the state after the loop has \<open>assignment[cell] = 0\<close> again.
\<close>

function enumerateComponent ::
  "nat \<Rightarrow> nat \<Rightarrow> nat \<Rightarrow> int \<Rightarrow> nat list \<Rightarrow> nat list \<Rightarrow> nat list list \<Rightarrow> LocalConstraint list
     \<Rightarrow> EnumState \<Rightarrow> EnumState option" where
  "enumerateComponent pos numBad compSize remainingBad order orderPos cellConstraints localConstraints st =
     (if int numBad > remainingBad then Some st
      else if pos = compSize then recordConfig compSize numBad st
      else do {
        cell \<leftarrow> vget order pos;
        a0 \<leftarrow> vset (assignment st) cell 0;
        v0 \<leftarrow> checkCell cell cellConstraints localConstraints pos orderPos a0;
        st1 \<leftarrow> (if v0
                then enumerateComponent (pos + 1) (numBad + 0) compSize remainingBad order orderPos
                       cellConstraints localConstraints (st\<lparr>assignment := a0\<rparr>)
                else Some (st\<lparr>assignment := a0\<rparr>));
        a1 \<leftarrow> vset (assignment st1) cell 1;
        v1 \<leftarrow> checkCell cell cellConstraints localConstraints pos orderPos a1;
        st2 \<leftarrow> (if v1
                then enumerateComponent (pos + 1) (numBad + 1) compSize remainingBad order orderPos
                       cellConstraints localConstraints (st1\<lparr>assignment := a1\<rparr>)
                else Some (st1\<lparr>assignment := a1\<rparr>));
        a2 \<leftarrow> vset (assignment st2) cell 0;
        Some (st2\<lparr>assignment := a2\<rparr>)
      })"
  by pat_completeness auto
termination
  by (relation "measure (\<lambda>(pos, numBad, compSize, remainingBad, order, rest). length order - pos)")
     (auto simp: vget_def split: if_splits)


declare enumerateComponent.simps [simp del]

text \<open>The vectors as \<open>solve\<close> creates them before the call: all zero.\<close>

definition initEnum :: "nat \<Rightarrow> EnumState" where
  "initEnum compSize = \<lparr>assignment = replicate compSize 0, counts = replicate (compSize + 1) 0,
      badCnts = replicate compSize (replicate (compSize + 1) 0)\<rparr>"

subsection \<open>Well-formed arguments\<close>

text \<open>
  \<open>wf_enum\<close>: what \<open>solve\<close> passes to \<open>enumerateComponent\<close>. \<open>order\<close> is a
  permutation of the cells \<open>0..<n\<close> and \<open>orderPos\<close> its inverse, every constraint index
  in \<open>cellConstraints\<close> and every cell of a constraint is in range. \<open>covers\<close>: every
  constraint has a cell, and is listed in \<open>cellConstraints\<close> under each of its cells.
\<close>

definition wf_enum :: "nat \<Rightarrow> nat list \<Rightarrow> nat list \<Rightarrow> nat list list \<Rightarrow> LocalConstraint list \<Rightarrow> bool" where
  "wf_enum n order orderPos cc lcs =
     (length order = n \<and> length orderPos = n \<and> length cc = n
      \<and> (\<forall>p \<in> set [0..<n]. order ! p < n \<and> orderPos ! (order ! p) = p)
      \<and> (\<forall>c \<in> set [0..<n]. orderPos ! c < n \<and> order ! (orderPos ! c) = c)
      \<and> (\<forall>c \<in> set [0..<n]. \<forall>ci \<in> set (cc ! c). ci < length lcs)
      \<and> (\<forall>lc \<in> set lcs. \<forall>li \<in> set (localIdx lc). li < n))"

definition covers :: "nat list list \<Rightarrow> LocalConstraint list \<Rightarrow> bool" where
  "covers cc lcs =
     (\<forall>ci \<in> set [0..<length lcs]. localIdx (lcs ! ci) \<noteq> [] \<and> (\<forall>li \<in> set (localIdx (lcs ! ci)). ci \<in> set (cc ! li)))"

subsection \<open>The loops of the constraint check and of the base case\<close>

definition badSoFar :: "nat list \<Rightarrow> nat \<Rightarrow> nat list \<Rightarrow> nat list \<Rightarrow> nat" where
  "badSoFar lis pos orderPos asg = sum_list (map (\<lambda>li. asg ! li) (filter (\<lambda>li. orderPos ! li \<le> pos) lis))"

definition undecided :: "nat list \<Rightarrow> nat \<Rightarrow> nat list \<Rightarrow> nat" where
  "undecided lis pos orderPos = length (filter (\<lambda>li. \<not> orderPos ! li \<le> pos) lis)"

lemma countAssigned_eq:
  assumes "\<forall>li \<in> set lis. li < length orderPos \<and> li < length asg"
  shows "countAssigned lis pos orderPos asg (b, u)
         = Some (b + badSoFar lis pos orderPos asg, u + undecided lis pos orderPos)"
  using assms
  by (induction lis arbitrary: b u) (auto simp: badSoFar_def undecided_def vget_def)

definition passes :: "LocalConstraint \<Rightarrow> nat \<Rightarrow> nat list \<Rightarrow> nat list \<Rightarrow> bool" where
  "passes lc pos orderPos asg =
     (int (badSoFar (localIdx lc) pos orderPos asg) \<le> lmaxBad lc
      \<and> lminBad lc \<le> int (badSoFar (localIdx lc) pos orderPos asg) + int (undecided (localIdx lc) pos orderPos))"

lemma checkConstraints_eq:
  assumes "\<forall>ci \<in> set cs. ci < length lcs"
    and "\<forall>lc \<in> set lcs. \<forall>li \<in> set (localIdx lc). li < length orderPos \<and> li < length asg"
  shows "checkConstraints cs lcs pos orderPos asg = Some (\<forall>ci \<in> set cs. passes (lcs ! ci) pos orderPos asg)"
  using assms
proof (induction cs)
  case Nil
  then show ?case by simp
next
  case (Cons ci cs)
  have ci: "ci < length lcs" using Cons.prems by simp
  then have mem: "lcs ! ci \<in> set lcs" by simp
  have ca: "countAssigned (localIdx (lcs ! ci)) pos orderPos asg (0, 0)
            = Some (badSoFar (localIdx (lcs ! ci)) pos orderPos asg, undecided (localIdx (lcs ! ci)) pos orderPos)"
    using countAssigned_eq [of "localIdx (lcs ! ci)" orderPos asg pos 0 0] Cons.prems(2) mem by simp
  have ih: "checkConstraints cs lcs pos orderPos asg = Some (\<forall>ci \<in> set cs. passes (lcs ! ci) pos orderPos asg)"
    using Cons by simp
  show ?case
    using ci by (auto simp: vget_def ca ih passes_def)
qed

lemma bump_eq: "k < length cs \<Longrightarrow> bump cs k = Some (cs[k := cs ! k + 1])"
  by (simp add: bump_def vget_def vset_def)

lemma recordBad_eq:
  assumes "\<forall>i \<in> set is. i < length asg \<and> i < length bc"
    and "\<forall>row \<in> set bc. k < length row"
    and "distinct is"
  shows "\<exists>bc'. recordBad is k asg bc = Some bc' \<and> length bc' = length bc
           \<and> (\<forall>i < length bc. length (bc' ! i) = length (bc ! i)
                \<and> (\<forall>j < length (bc ! i). bc' ! i ! j = bc ! i ! j + (if i \<in> set is \<and> asg ! i \<noteq> 0 \<and> j = k then 1 else 0)))"
  using assms
proof (induction "is" arbitrary: bc)
  case Nil
  then show ?case by simp
next
  case (Cons i "is")
  show ?case
  proof (cases "asg ! i \<noteq> 0")
    case False
    then have eq: "recordBad (i # is) k asg bc = recordBad is k asg bc"
      using Cons.prems by (simp add: vget_def)
    from Cons.IH [of bc] Cons.prems obtain bc' where
      r: "recordBad is k asg bc = Some bc'" "length bc' = length bc"
      "\<forall>i < length bc. length (bc' ! i) = length (bc ! i)
                \<and> (\<forall>j < length (bc ! i). bc' ! i ! j = bc ! i ! j + (if i \<in> set is \<and> asg ! i \<noteq> 0 \<and> j = k then 1 else 0))"
      by auto
    show ?thesis unfolding eq using r False by (intro exI [of _ bc']) auto
  next
    case True
    let ?row = "(bc ! i)[k := bc ! i ! k + 1]"
    let ?bc1 = "bc[i := ?row]"
    have i: "i < length bc" "i < length asg" using Cons.prems by auto
    then have kl: "k < length (bc ! i)" using Cons.prems(2) by simp
    have eq: "recordBad (i # is) k asg bc = recordBad is k asg ?bc1"
      using True i kl by (simp add: vget_def bump_eq)
    have p2: "\<forall>row \<in> set ?bc1. k < length row"
      using Cons.prems(2) kl by (auto dest!: set_update_subset_insert [THEN subsetD])
    from Cons.IH [of ?bc1] Cons.prems p2 obtain bc' where
      r: "recordBad is k asg ?bc1 = Some bc'" "length bc' = length ?bc1"
      "\<forall>i' < length ?bc1. length (bc' ! i') = length (?bc1 ! i')
                \<and> (\<forall>j < length (?bc1 ! i'). bc' ! i' ! j = ?bc1 ! i' ! j + (if i' \<in> set is \<and> asg ! i' \<noteq> 0 \<and> j = k then 1 else 0))"
      by auto
    have ni: "i \<notin> set is" using Cons.prems(3) by simp
    show ?thesis
    proof (intro exI conjI allI impI)
      show "recordBad (i # is) k asg bc = Some bc'" using eq r(1) by simp
      show "length bc' = length bc" using r(2) by simp
    next
      fix i' assume a: "i' < length bc"
      show "length (bc' ! i') = length (bc ! i')"
        using r(3) a by (cases "i' = i") auto
    next
      fix i' j assume a: "i' < length bc" and b: "j < length (bc ! i')"
      show "bc' ! i' ! j = bc ! i' ! j + (if i' \<in> set (i # is) \<and> asg ! i' \<noteq> 0 \<and> j = k then 1 else 0)"
      proof (cases "i' = i")
        case True
        then show ?thesis using r(3) a b ni \<open>asg ! i \<noteq> 0\<close> 
          by (cases "j = k") auto
      next
        case False
        then show ?thesis using r(3) a b by auto
      qed
    qed
  qed
qed

subsection \<open>Assignments, and the assignments a run accepts\<close>

text \<open>
  An assignment gives every cell of the component 0 (safe) or 1 (bad). \<open>satisfies\<close> is the
  meaning of the constraints: the number of bad cells among the cells of each constraint
  lies within its bounds. \<open>accepted\<close> collects the checks a run makes on the way to a
  complete assignment; \<open>completions\<close> are the complete assignments that extend the
  partial one built at position \<open>pos\<close>.
\<close>

definition badIn :: "nat list \<Rightarrow> LocalConstraint \<Rightarrow> nat" where
  "badIn a lc = sum_list (map (\<lambda>li. a ! li) (localIdx lc))"

definition satisfiesOne :: "LocalConstraint \<Rightarrow> nat list \<Rightarrow> bool" where
  "satisfiesOne lc a = (lminBad lc \<le> int (badIn a lc) \<and> int (badIn a lc) \<le> lmaxBad lc)"

definition satisfies :: "LocalConstraint list \<Rightarrow> nat list \<Rightarrow> bool" where
  "satisfies lcs a = (\<forall>lc \<in> set lcs. satisfiesOne lc a)"

definition completions :: "nat \<Rightarrow> nat list \<Rightarrow> nat \<Rightarrow> nat list \<Rightarrow> nat list set" where
  "completions n orderPos pos asg =
     {a. length a = n \<and> set a \<subseteq> {0, 1} \<and> (\<forall>c < n. orderPos ! c < pos \<longrightarrow> a ! c = asg ! c)}"

definition accepted :: "nat \<Rightarrow> nat list \<Rightarrow> nat list \<Rightarrow> nat list list \<Rightarrow> LocalConstraint list \<Rightarrow> nat list \<Rightarrow> bool" where
  "accepted n order orderPos cc lcs a =
     (\<forall>p < n. \<forall>ci \<in> set (cc ! (order ! p)). passes (lcs ! ci) p orderPos a)"

definition found :: "(nat list \<Rightarrow> bool) \<Rightarrow> nat list set \<Rightarrow> nat \<Rightarrow> nat list set" where
  "found P S k = {a \<in> S. P a \<and> sum_list a = k}"

definition foundBad :: "(nat list \<Rightarrow> bool) \<Rightarrow> nat list set \<Rightarrow> nat \<Rightarrow> nat \<Rightarrow> nat list set" where
  "foundBad P S i k = {a \<in> S. P a \<and> sum_list a = k \<and> a ! i \<noteq> 0}"

lemma finite_completions: "finite (completions n orderPos pos asg)"
proof -
  have "completions n orderPos pos asg \<subseteq> {a. set a \<subseteq> {0, 1} \<and> length a = n}"
    by (auto simp: completions_def)
  moreover have "finite {a. set a \<subseteq> {0, 1::nat} \<and> length a = n}"
    by (rule finite_lists_length_eq) simp
  ultimately show ?thesis by (rule finite_subset)
qed

lemma completions_full:
  assumes "length asg = n" "set asg \<subseteq> {0, 1}" "\<forall>c < n. orderPos ! c < n"
  shows "completions n orderPos n asg = {asg}"
proof -
  have "a = asg" if "a \<in> completions n orderPos n asg" for a
    using that assms by (intro nth_equalityI) (auto simp: completions_def)
  moreover have "asg \<in> completions n orderPos n asg"
    using assms by (auto simp: completions_def)
  ultimately show ?thesis by auto
qed

lemma completions_step:
  assumes wf: "wf_enum n order orderPos cc lcs" and pos: "pos < n" and len: "length asg = n"
    and v: "v \<in> {0, 1}"
  shows "completions n orderPos (pos + 1) (asg[order ! pos := v])
         = {a \<in> completions n orderPos pos asg. a ! (order ! pos) = v}"
proof -
  let ?cell = "order ! pos"
  have cell: "?cell < n" "orderPos ! ?cell = pos"
    using wf pos by (auto simp: wf_enum_def)
  have inj: "c = ?cell" if "c < n" "orderPos ! c = pos" for c
    using wf that by (auto simp: wf_enum_def)
  show ?thesis
  proof (intro set_eqI iffI)
    fix a assume a: "a \<in> completions n orderPos (pos + 1) (asg[?cell := v])"
    then have l: "length a = n" "set a \<subseteq> {0, 1}"
      and ag: "\<forall>c < n. orderPos ! c < pos + 1 \<longrightarrow> a ! c = asg[?cell := v] ! c"
      by (auto simp: completions_def)
    have "a ! ?cell = v" using ag cell len by auto
    moreover have "a ! c = asg ! c" if "c < n" "orderPos ! c < pos" for c
    proof -
      have "c \<noteq> ?cell" using that cell by auto
      then show ?thesis using ag that by auto
    qed
    ultimately show "a \<in> {a \<in> completions n orderPos pos asg. a ! ?cell = v}"
      using l by (auto simp: completions_def)
  next
    fix a assume "a \<in> {a \<in> completions n orderPos pos asg. a ! ?cell = v}"
    then have l: "length a = n" "set a \<subseteq> {0, 1}"
      and ag: "\<forall>c < n. orderPos ! c < pos \<longrightarrow> a ! c = asg ! c" and av: "a ! ?cell = v"
      by (auto simp: completions_def)
    have "a ! c = asg[?cell := v] ! c" if "c < n" "orderPos ! c < pos + 1" for c
    proof (cases "c = ?cell")
      case True
      then show ?thesis using av len cell by simp
    next
      case False
      then have "orderPos ! c \<noteq> pos" using inj that by auto
      then have "orderPos ! c < pos" using that by simp
      then show ?thesis using ag that False by simp
    qed
    then show "a \<in> completions n orderPos (pos + 1) (asg[?cell := v])"
      using l by (auto simp: completions_def)
  qed
qed

lemma completions_split:
  assumes wf: "wf_enum n order orderPos cc lcs" and pos: "pos < n" and len: "length asg = n"
  shows "completions n orderPos pos asg
         = completions n orderPos (pos + 1) (asg[order ! pos := 0])
           \<union> completions n orderPos (pos + 1) (asg[order ! pos := 1])"
    and "completions n orderPos (pos + 1) (asg[order ! pos := 0])
           \<inter> completions n orderPos (pos + 1) (asg[order ! pos := 1]) = {}"
proof -
  have cell: "order ! pos < n" using wf pos by (auto simp: wf_enum_def)
  have s0: "completions n orderPos (pos + 1) (asg[order ! pos := 0])
         = {a \<in> completions n orderPos pos asg. a ! (order ! pos) = 0}"
    using completions_step [OF wf pos len, of 0] by simp
  have s1: "completions n orderPos (pos + 1) (asg[order ! pos := 1])
         = {a \<in> completions n orderPos pos asg. a ! (order ! pos) = 1}"
    using completions_step [OF wf pos len, of 1] by simp
  have "a ! (order ! pos) = 0 \<or> a ! (order ! pos) = 1" if "a \<in> completions n orderPos pos asg" for a
  proof -
    have "a ! (order ! pos) \<in> set a" using that cell by (auto simp: completions_def)
    then show ?thesis using that by (auto simp: completions_def)
  qed
  then show "completions n orderPos pos asg
         = completions n orderPos (pos + 1) (asg[order ! pos := 0])
           \<union> completions n orderPos (pos + 1) (asg[order ! pos := 1])"
    unfolding s0 s1 by auto
  show "completions n orderPos (pos + 1) (asg[order ! pos := 0])
           \<inter> completions n orderPos (pos + 1) (asg[order ! pos := 1]) = {}"
    unfolding s0 s1 by auto
qed

lemma sum_list_pointwise_le:
  fixes xs ys :: "nat list"
  assumes "length xs = length ys" "\<forall>i < length xs. xs ! i \<le> ys ! i"
  shows "sum_list xs \<le> sum_list ys"
proof -
  have "sum_list xs = (\<Sum>i = 0..<length xs. xs ! i)" by (rule sum_list_sum_nth)
  also have "\<dots> \<le> (\<Sum>i = 0..<length xs. ys ! i)" using assms by (intro sum_mono) simp
  also have "\<dots> = sum_list ys" using assms(1) by (simp add: sum_list_sum_nth)
  finally show ?thesis .
qed

lemma completions_sum_ge:
  assumes "a \<in> completions n orderPos pos asg" "length asg = n"
    and "\<forall>c < n. pos \<le> orderPos ! c \<longrightarrow> asg ! c = 0"
  shows "sum_list asg \<le> sum_list a"
proof (rule sum_list_pointwise_le)
  show "length asg = length a" using assms by (simp add: completions_def)
  show "\<forall>i < length asg. asg ! i \<le> a ! i"
  proof (intro allI impI)
    fix i assume i: "i < length asg"
    show "asg ! i \<le> a ! i"
    proof (cases "orderPos ! i < pos")
      case True
      then show ?thesis using assms i by (simp add: completions_def)
    next
      case False
      then show ?thesis using assms(2,3) i by simp
    qed
  qed
qed

lemma badIn_bounds:
  assumes a: "a \<in> completions n orderPos (pos + 1) av"
    and lis: "\<forall>li \<in> set lis. li < n"
  shows "badSoFar lis pos orderPos av \<le> sum_list (map (\<lambda>li. a ! li) lis)
         \<and> sum_list (map (\<lambda>li. a ! li) lis) \<le> badSoFar lis pos orderPos av + undecided lis pos orderPos"
  using lis
proof (induction lis)
  case Nil
  then show ?case by (simp add: badSoFar_def undecided_def)
next
  case (Cons li lis)
  then have li: "li < n" by simp
  have ih: "badSoFar lis pos orderPos av \<le> sum_list (map (\<lambda>li. a ! li) lis)
         \<and> sum_list (map (\<lambda>li. a ! li) lis) \<le> badSoFar lis pos orderPos av + undecided lis pos orderPos"
    using Cons by simp
  show ?case
  proof (cases "orderPos ! li \<le> pos")
    case True
    then have "a ! li = av ! li" using a li by (simp add: completions_def)
    then show ?thesis using ih True by (simp add: badSoFar_def undecided_def)
  next
    case False
    have "a ! li \<in> set a" using a li by (auto simp: completions_def)
    then have "a ! li \<le> 1" using a by (auto simp: completions_def)
    then show ?thesis using ih False by (simp add: badSoFar_def undecided_def)
  qed
qed

lemma passes_agree:
  assumes "\<forall>li \<in> set (localIdx lc). orderPos ! li \<le> pos \<longrightarrow> a ! li = b ! li"
  shows "passes lc pos orderPos a = passes lc pos orderPos b"
proof -
  have "map (\<lambda>li. a ! li) (filter (\<lambda>li. orderPos ! li \<le> pos) (localIdx lc))
        = map (\<lambda>li. b ! li) (filter (\<lambda>li. orderPos ! li \<le> pos) (localIdx lc))"
    using assms by (intro map_cong) auto
  then have "badSoFar (localIdx lc) pos orderPos a = badSoFar (localIdx lc) pos orderPos b"
    unfolding badSoFar_def by (rule arg_cong [where f = sum_list])
  then show ?thesis by (simp add: passes_def)
qed

lemma satisfiesOne_passes:
  assumes a: "length a = n" "set a \<subseteq> {0, 1}"
    and lis: "\<forall>li \<in> set (localIdx lc). li < n"
    and sat: "satisfiesOne lc a"
  shows "passes lc pos orderPos a"
proof -
  have "a \<in> completions n orderPos (pos + 1) a" using a by (simp add: completions_def)
  from badIn_bounds [OF this lis] sat show ?thesis
    by (auto simp: passes_def satisfiesOne_def badIn_def)
qed

lemma passes_decided:
  assumes "\<forall>li \<in> set (localIdx lc). orderPos ! li \<le> pos"
  shows "passes lc pos orderPos av = satisfiesOne lc av"
proof -
  have f: "filter (\<lambda>li. orderPos ! li \<le> pos) (localIdx lc) = localIdx lc"
    using assms by (simp add: filter_id_conv)
  have g: "filter (\<lambda>li. \<not> orderPos ! li \<le> pos) (localIdx lc) = []"
    using assms by (simp add: filter_empty_conv)
  show ?thesis
    by (auto simp: passes_def satisfiesOne_def badIn_def badSoFar_def undecided_def f g)
qed

subsection \<open>The invariant of the recursion and what a call adds to the counters\<close>

definition enum_inv :: "nat \<Rightarrow> nat list \<Rightarrow> nat list \<Rightarrow> nat list list \<Rightarrow> LocalConstraint list \<Rightarrow> nat \<Rightarrow> nat \<Rightarrow> EnumState \<Rightarrow> bool" where
  "enum_inv n order orderPos cc lcs pos numBad st =
     (pos \<le> n \<and> length (assignment st) = n \<and> set (assignment st) \<subseteq> {0, 1}
      \<and> (\<forall>c < n. pos \<le> orderPos ! c \<longrightarrow> assignment st ! c = 0)
      \<and> sum_list (assignment st) = numBad
      \<and> length (counts st) = n + 1 \<and> length (badCnts st) = n
      \<and> (\<forall>row \<in> set (badCnts st). length row = n + 1)
      \<and> (\<forall>p < pos. \<forall>ci \<in> set (cc ! (order ! p)). passes (lcs ! ci) p orderPos (assignment st)))"

definition gainC :: "(nat list \<Rightarrow> bool) \<Rightarrow> int \<Rightarrow> nat list set \<Rightarrow> nat \<Rightarrow> real" where
  "gainC P R S k = (if int k \<le> R then real (card (found P S k)) else 0)"

definition gainB :: "(nat list \<Rightarrow> bool) \<Rightarrow> int \<Rightarrow> nat list set \<Rightarrow> nat \<Rightarrow> nat \<Rightarrow> real" where
  "gainB P R S i k = (if int k \<le> R then real (card (foundBad P S i k)) else 0)"

definition adds :: "nat \<Rightarrow> EnumState \<Rightarrow> EnumState \<Rightarrow> (nat \<Rightarrow> real) \<Rightarrow> (nat \<Rightarrow> nat \<Rightarrow> real) \<Rightarrow> bool" where
  "adds n st st' dc db =
     (assignment st' = assignment st \<and> length (counts st') = length (counts st)
      \<and> length (badCnts st') = length (badCnts st)
      \<and> (\<forall>k \<le> n. counts st' ! k = counts st ! k + dc k)
      \<and> (\<forall>i < n. length (badCnts st' ! i) = length (badCnts st ! i)
            \<and> (\<forall>k \<le> n. badCnts st' ! i ! k = badCnts st ! i ! k + db i k)))"

lemma gain_union:
  assumes "finite A" "finite B" "A \<inter> B = {}"
  shows "gainC P R (A \<union> B) k = gainC P R A k + gainC P R B k"
    and "gainB P R (A \<union> B) i k = gainB P R A i k + gainB P R B i k"
proof -
  have "found P (A \<union> B) k = found P A k \<union> found P B k" by (auto simp: found_def)
  moreover have "found P A k \<inter> found P B k = {}" using assms(3) by (auto simp: found_def)
  moreover have "finite (found P A k)" "finite (found P B k)" using assms by (auto simp: found_def)
  ultimately have "card (found P (A \<union> B) k) = card (found P A k) + card (found P B k)"
    by (simp add: card_Un_disjoint)
  then show "gainC P R (A \<union> B) k = gainC P R A k + gainC P R B k"
    by (simp add: gainC_def)
  have "foundBad P (A \<union> B) i k = foundBad P A i k \<union> foundBad P B i k" by (auto simp: foundBad_def)
  moreover have "foundBad P A i k \<inter> foundBad P B i k = {}" using assms(3) by (auto simp: foundBad_def)
  moreover have "finite (foundBad P A i k)" "finite (foundBad P B i k)" using assms by (auto simp: foundBad_def)
  ultimately have "card (foundBad P (A \<union> B) i k) = card (foundBad P A i k) + card (foundBad P B i k)"
    by (simp add: card_Un_disjoint)
  then show "gainB P R (A \<union> B) i k = gainB P R A i k + gainB P R B i k"
    by (simp add: gainB_def)
qed

lemma gain_unsat:
  assumes "\<forall>a \<in> S. \<not> P a"
  shows "gainC P R S k = 0" "gainB P R S i k = 0"
proof -
  have "found P S k = {}" "foundBad P S i k = {}" using assms by (auto simp: found_def foundBad_def)
  then show "gainC P R S k = 0" "gainB P R S i k = 0" by (simp_all add: gainC_def gainB_def)
qed

lemma gain_over_budget:
  assumes "\<forall>a \<in> S. R < int (sum_list a)"
  shows "gainC P R S k = 0" "gainB P R S i k = 0"
proof -
  have "found P S k = {}" "foundBad P S i k = {}" if "int k \<le> R"
    using assms that by (auto simp: found_def foundBad_def)
  then show "gainC P R S k = 0" "gainB P R S i k = 0" by (auto simp: gainC_def gainB_def)
qed

lemma adds_refl: "(\<And>k. dc k = 0) \<Longrightarrow> (\<And>i k. db i k = 0) \<Longrightarrow> adds n st st dc db"
  by (simp add: adds_def)

lemma sum_list_binary_le:
  fixes xs :: "nat list"
  assumes "set xs \<subseteq> {0, 1}"
  shows "sum_list xs \<le> length xs"
  using assms by (induction xs) auto

lemma recordConfig_adds:
  assumes wf: "wf_enum n order orderPos cc lcs"
    and inv: "enum_inv n order orderPos cc lcs n numBad st" and R: "int numBad \<le> R"
  shows "\<exists>st'. recordConfig n numBad st = Some st'
           \<and> adds n st st' (gainC (accepted n order orderPos cc lcs) R (completions n orderPos n (assignment st)))
                           (gainB (accepted n order orderPos cc lcs) R (completions n orderPos n (assignment st)))"
proof -
  let ?asg = "assignment st"
  have len: "length ?asg = n" and bin: "set ?asg \<subseteq> {0, 1}" and sm: "sum_list ?asg = numBad"
    and lc: "length (counts st) = n + 1" and lb: "length (badCnts st) = n"
    and rows: "\<forall>row \<in> set (badCnts st). length row = n + 1"
    using inv by (auto simp: enum_inv_def)
  have op: "\<forall>c < n. orderPos ! c < n" using wf by (simp add: wf_enum_def)
  have nb: "numBad \<le> n" using sum_list_binary_le [OF bin] len sm by simp
  have sat: "accepted n order orderPos cc lcs ?asg"
    using inv by (simp add: accepted_def enum_inv_def)
  have full: "completions n orderPos n ?asg = {?asg}"
    using completions_full [OF len bin op] .
  have fs: "found (accepted n order orderPos cc lcs) {?asg} k = (if k = numBad then {?asg} else {})" for k
    using sat sm by (auto simp: found_def)
  have fb: "foundBad (accepted n order orderPos cc lcs) {?asg} i k = (if ?asg ! i \<noteq> 0 \<and> k = numBad then {?asg} else {})" for i k
    using sat sm by (auto simp: foundBad_def)
  have gc: "gainC (accepted n order orderPos cc lcs) R {?asg} k = (if k = numBad then 1 else 0)" for k
    using R by (simp add: gainC_def fs)
  have gb: "gainB (accepted n order orderPos cc lcs) R {?asg} i k = (if ?asg ! i \<noteq> 0 \<and> k = numBad then 1 else 0)" for i k
    using R by (simp add: gainB_def fb)
  have b1: "bump (counts st) numBad = Some ((counts st)[numBad := counts st ! numBad + 1])"
    using nb lc by (simp add: bump_eq)
  have "\<exists>bc'. recordBad [0..<n] numBad ?asg (badCnts st) = Some bc' \<and> length bc' = length (badCnts st)
           \<and> (\<forall>i < length (badCnts st). length (bc' ! i) = length (badCnts st ! i)
                \<and> (\<forall>j < length (badCnts st ! i). bc' ! i ! j = badCnts st ! i ! j
                       + (if i \<in> set [0..<n] \<and> ?asg ! i \<noteq> 0 \<and> j = numBad then 1 else 0)))"
    using len lb rows nb by (intro recordBad_eq) auto
  then obtain bc' where bc: "recordBad [0..<n] numBad ?asg (badCnts st) = Some bc'"
    "length bc' = length (badCnts st)"
    "\<forall>i < length (badCnts st). length (bc' ! i) = length (badCnts st ! i)
                \<and> (\<forall>j < length (badCnts st ! i). bc' ! i ! j = badCnts st ! i ! j
                       + (if i \<in> set [0..<n] \<and> ?asg ! i \<noteq> 0 \<and> j = numBad then 1 else 0))"
    by blast
  let ?st' = "st\<lparr>counts := (counts st)[numBad := counts st ! numBad + 1], badCnts := bc'\<rparr>"
  have r: "recordConfig n numBad st = Some ?st'"
    by (simp add: recordConfig_def b1 bc(1))
  have rl: "length (badCnts st ! i) = n + 1" if "i < n" for i
    using rows lb that by simp
  have "adds n st ?st' (gainC (accepted n order orderPos cc lcs) R {?asg}) (gainB (accepted n order orderPos cc lcs) R {?asg})"
    unfolding adds_def gc gb
  proof (intro conjI allI impI)
    fix k assume "k \<le> n"
    then show "counts ?st' ! k = counts st ! k + (if k = numBad then 1 else 0)"
      using lc nb by (cases "k = numBad") auto
  next
    fix i assume "i < n"
    then show "length (badCnts ?st' ! i) = length (badCnts st ! i)" using bc(3) lb by simp
  next
    fix i k assume "i < n" "k \<le> n"
    then show "badCnts ?st' ! i ! k = badCnts st ! i ! k + (if ?asg ! i \<noteq> 0 \<and> k = numBad then 1 else 0)"
      using bc(3) lb rl [of i] by simp
  qed (simp_all add: bc(2))
  then show ?thesis using r full by auto
qed

lemma checkCell_eq:
  assumes wf: "wf_enum n order orderPos cc lcs" and cell: "cell < n" and len: "length av = n"
  shows "checkCell cell cc lcs pos orderPos av
         = Some (\<forall>ci \<in> set (cc ! cell). passes (lcs ! ci) pos orderPos av)"
proof -
  have 1: "\<forall>ci \<in> set (cc ! cell). ci < length lcs" using wf cell by (simp add: wf_enum_def)
  have 2: "\<forall>lc \<in> set lcs. \<forall>li \<in> set (localIdx lc). li < length orderPos \<and> li < length av"
    using wf len by (simp add: wf_enum_def)
  have 3: "cell < length cc" using wf cell by (simp add: wf_enum_def)
  show ?thesis
    using checkConstraints_eq [OF 1 2, of pos] 3 by (simp add: checkCell_def vget_def)
qed

lemma inv_next:
  assumes wf: "wf_enum n order orderPos cc lcs"
    and inv: "enum_inv n order orderPos cc lcs pos numBad st" and pos: "pos < n"
    and v: "v \<in> {0, 1}"
    and pass: "\<forall>ci \<in> set (cc ! (order ! pos)). passes (lcs ! ci) pos orderPos ((assignment st)[order ! pos := v])"
  shows "enum_inv n order orderPos cc lcs (pos + 1) (numBad + v) (st\<lparr>assignment := (assignment st)[order ! pos := v]\<rparr>)"
proof -
  let ?asg = "assignment st" and ?cell = "order ! pos"
  let ?av = "?asg[?cell := v]"
  have cell: "?cell < n" "orderPos ! ?cell = pos" using wf pos by (auto simp: wf_enum_def)
  have len: "length ?asg = n" and bin: "set ?asg \<subseteq> {0, 1}" and sm: "sum_list ?asg = numBad"
    and zero: "\<forall>c < n. pos \<le> orderPos ! c \<longrightarrow> ?asg ! c = 0"
    and chk: "\<forall>p < pos. \<forall>ci \<in> set (cc ! (order ! p)). passes (lcs ! ci) p orderPos ?asg"
    using inv by (auto simp: enum_inv_def)
  have z: "?asg ! ?cell = 0" using zero cell by simp
  have s: "sum_list ?av = numBad + v"
    using cell len sm z by (simp add: sum_list_update)
  have b: "set ?av \<subseteq> {0, 1}"
    using set_update_subset_insert [of ?asg ?cell v] bin v by auto
  have zr: "\<forall>c < n. pos + 1 \<le> orderPos ! c \<longrightarrow> ?av ! c = 0"
  proof (intro allI impI)
    fix c assume c: "c < n" "pos + 1 \<le> orderPos ! c"
    then have "c \<noteq> ?cell" using cell by auto
    then show "?av ! c = 0" using zero c by simp
  qed
  have ck: "passes (lcs ! ci) p orderPos ?av"
    if p: "p < pos + 1" and ci: "ci \<in> set (cc ! (order ! p))" for p ci
  proof (cases "p = pos")
    case True
    then show ?thesis using pass ci by simp
  next
    case False
    then have pp: "p < pos" using p by simp
    have "?av ! li = ?asg ! li" if "orderPos ! li \<le> p" for li
    proof -
      have "li \<noteq> ?cell" using that cell pp by auto
      then show ?thesis by simp
    qed
    then have "passes (lcs ! ci) p orderPos ?av = passes (lcs ! ci) p orderPos ?asg"
      by (intro passes_agree) simp
    then show ?thesis using chk pp ci by simp
  qed
  show ?thesis
    using inv pos len s b zr ck by (simp add: enum_inv_def)
qed

lemma prune_all:
  assumes wf: "wf_enum n order orderPos cc lcs" and pos: "pos < n"
    and np: "\<not> (\<forall>ci \<in> set (cc ! (order ! pos)). passes (lcs ! ci) pos orderPos av)"
  shows "\<forall>a \<in> completions n orderPos (pos + 1) av. \<not> accepted n order orderPos cc lcs a"
proof
  fix a assume a: "a \<in> completions n orderPos (pos + 1) av"
  from np obtain ci where ci: "ci \<in> set (cc ! (order ! pos))" "\<not> passes (lcs ! ci) pos orderPos av"
    by blast
  have "order ! pos < n" using wf pos by (simp add: wf_enum_def)
  then have l: "ci < length lcs" using wf ci(1) by (simp add: wf_enum_def)
  then have "lcs ! ci \<in> set lcs" by simp
  then have mem: "\<forall>li \<in> set (localIdx (lcs ! ci)). li < n" using wf by (simp add: wf_enum_def)
  have "passes (lcs ! ci) pos orderPos a = passes (lcs ! ci) pos orderPos av"
    using a mem by (intro passes_agree) (simp add: completions_def)
  then have "\<not> passes (lcs ! ci) pos orderPos a" using ci(2) by simp
  then show "\<not> accepted n order orderPos cc lcs a"
    using ci(1) pos by (auto simp: accepted_def)
qed

lemma branch_adds:
  assumes wf: "wf_enum n order orderPos cc lcs"
    and inv: "enum_inv n order orderPos cc lcs pos numBad st" and pos: "pos < n"
    and v: "v \<in> {0, 1}"
    and ih: "\<And>b. checkCell (order ! pos) cc lcs pos orderPos ((assignment st)[order ! pos := v]) = Some b \<Longrightarrow> b
       \<Longrightarrow> enum_inv n order orderPos cc lcs (pos + 1) (numBad + v) (st\<lparr>assignment := (assignment st)[order ! pos := v]\<rparr>)
       \<Longrightarrow> \<exists>st'. enumerateComponent (pos + 1) (numBad + v) n R order orderPos cc lcs
                   (st\<lparr>assignment := (assignment st)[order ! pos := v]\<rparr>) = Some st'
              \<and> adds n (st\<lparr>assignment := (assignment st)[order ! pos := v]\<rparr>) st'
                   (gainC (accepted n order orderPos cc lcs) R (completions n orderPos (pos + 1) ((assignment st)[order ! pos := v])))
                   (gainB (accepted n order orderPos cc lcs) R (completions n orderPos (pos + 1) ((assignment st)[order ! pos := v])))"
  shows "\<exists>b st'. checkCell (order ! pos) cc lcs pos orderPos ((assignment st)[order ! pos := v]) = Some b
           \<and> (if b then enumerateComponent (pos + 1) (numBad + v) n R order orderPos cc lcs
                   (st\<lparr>assignment := (assignment st)[order ! pos := v]\<rparr>)
               else Some (st\<lparr>assignment := (assignment st)[order ! pos := v]\<rparr>)) = Some st'
           \<and> adds n (st\<lparr>assignment := (assignment st)[order ! pos := v]\<rparr>) st'
                   (gainC (accepted n order orderPos cc lcs) R (completions n orderPos (pos + 1) ((assignment st)[order ! pos := v])))
                   (gainB (accepted n order orderPos cc lcs) R (completions n orderPos (pos + 1) ((assignment st)[order ! pos := v])))"
proof -
  let ?av = "(assignment st)[order ! pos := v]"
  let ?b = "\<forall>ci \<in> set (cc ! (order ! pos)). passes (lcs ! ci) pos orderPos ?av"
  have cell: "order ! pos < n" using wf pos by (simp add: wf_enum_def)
  have len: "length ?av = n" using inv by (simp add: enum_inv_def)
  have ce: "checkCell (order ! pos) cc lcs pos orderPos ?av = Some ?b"
    using checkCell_eq [OF wf cell len] .
  show ?thesis
  proof (cases ?b)
    case True
    from inv_next [OF wf inv pos v True] ih [OF ce True]
    show ?thesis using ce True by auto
  next
    case False
    from prune_all [OF wf pos False]
    have "adds n (st\<lparr>assignment := ?av\<rparr>) (st\<lparr>assignment := ?av\<rparr>)
            (gainC (accepted n order orderPos cc lcs) R (completions n orderPos (pos + 1) ?av))
            (gainB (accepted n order orderPos cc lcs) R (completions n orderPos (pos + 1) ?av))"
      by (intro adds_refl gain_unsat)
    then show ?thesis using ce False by auto
  qed
qed

lemma enumerate_adds:
  assumes "wf_enum n order orderPos cc lcs" "enum_inv n order orderPos cc lcs pos numBad st"
  shows "\<exists>st'. enumerateComponent pos numBad n R order orderPos cc lcs st = Some st'
           \<and> adds n st st' (gainC (accepted n order orderPos cc lcs) R (completions n orderPos pos (assignment st)))
                           (gainB (accepted n order orderPos cc lcs) R (completions n orderPos pos (assignment st)))"
  using assms
proof (induction pos numBad n R order orderPos cc lcs st rule: enumerateComponent.induct)
  case (1 pos numBad n R order orderPos cc lcs st)
  note wf = "1.prems"(1) and inv = "1.prems"(2)
  let ?asg = "assignment st"
  have len: "length ?asg = n" and zero: "\<forall>c < n. pos \<le> orderPos ! c \<longrightarrow> ?asg ! c = 0"
    and sm: "sum_list ?asg = numBad" and posn: "pos \<le> n"
    using inv by (auto simp: enum_inv_def)
  consider (over) "R < int numBad" | (base) "\<not> R < int numBad" "pos = n"
    | (step) "\<not> R < int numBad" "pos \<noteq> n" by blast
  then show ?case
  proof cases
    case over
    have "\<forall>a \<in> completions n orderPos pos ?asg. R < int (sum_list a)"
    proof
      fix a assume "a \<in> completions n orderPos pos ?asg"
      from completions_sum_ge [OF this len zero] sm over show "R < int (sum_list a)" by simp
    qed
    then have "adds n st st (gainC (accepted n order orderPos cc lcs) R (completions n orderPos pos ?asg))
                 (gainB (accepted n order orderPos cc lcs) R (completions n orderPos pos ?asg))"
      by (intro adds_refl gain_over_budget)
    moreover have "enumerateComponent pos numBad n R order orderPos cc lcs st = Some st"
      using over by (subst enumerateComponent.simps) simp
    ultimately show ?thesis by simp
  next
    case base
    have e: "enumerateComponent pos numBad n R order orderPos cc lcs st = recordConfig n numBad st"
      using base by (subst enumerateComponent.simps) simp
    from recordConfig_adds [OF wf, of numBad st R] inv base
    show ?thesis unfolding e by simp
  next
    case step
    then have pos: "pos < n" using posn by simp
    let ?cell = "order ! pos"
    have cell: "?cell < n" "orderPos ! ?cell = pos" "pos < length order"
      using wf pos by (auto simp: wf_enum_def)
    have z: "?asg ! ?cell = 0" using zero cell by simp
    then have a0: "?asg[?cell := 0] = ?asg" by (metis list_update_id)
    have vg: "vget order pos = Some ?cell" using cell by (simp add: vget_def)
    have vs0: "vset ?asg ?cell 0 = Some (?asg[?cell := 0])" using cell len by (simp add: vset_def)
    \<comment> \<open>first branch: the cell is safe\<close>
    have "\<exists>b st'. checkCell ?cell cc lcs pos orderPos (?asg[?cell := 0]) = Some b
           \<and> (if b then enumerateComponent (pos + 1) (numBad + 0) n R order orderPos cc lcs
                   (st\<lparr>assignment := ?asg[?cell := 0]\<rparr>)
               else Some (st\<lparr>assignment := ?asg[?cell := 0]\<rparr>)) = Some st'
           \<and> adds n (st\<lparr>assignment := ?asg[?cell := 0]\<rparr>) st'
                   (gainC (accepted n order orderPos cc lcs) R (completions n orderPos (pos + 1) (?asg[?cell := 0])))
                   (gainB (accepted n order orderPos cc lcs) R (completions n orderPos (pos + 1) (?asg[?cell := 0])))"
    proof (rule branch_adds [OF wf inv pos])
      show "(0::nat) \<in> {0, 1}" by simp
    next
      fix b
      assume "checkCell ?cell cc lcs pos orderPos (?asg[?cell := 0]) = Some b" b
        "enum_inv n order orderPos cc lcs (pos + 1) (numBad + 0) (st\<lparr>assignment := ?asg[?cell := 0]\<rparr>)"
      with "1.IH"(1) [OF step vg vs0 _ _ wf] 
      show "\<exists>st'. enumerateComponent (pos + 1) (numBad + 0) n R order orderPos cc lcs
                   (st\<lparr>assignment := ?asg[?cell := 0]\<rparr>) = Some st'
              \<and> adds n (st\<lparr>assignment := ?asg[?cell := 0]\<rparr>) st'
                   (gainC (accepted n order orderPos cc lcs) R (completions n orderPos (pos + 1) (?asg[?cell := 0])))
                   (gainB (accepted n order orderPos cc lcs) R (completions n orderPos (pos + 1) (?asg[?cell := 0])))"
        by simp
    qed
    then obtain b0 st1 where
      c0: "checkCell ?cell cc lcs pos orderPos (?asg[?cell := 0]) = Some b0"
      and e0: "(if b0 then enumerateComponent (pos + 1) (numBad + 0) n R order orderPos cc lcs
                   (st\<lparr>assignment := ?asg[?cell := 0]\<rparr>)
               else Some (st\<lparr>assignment := ?asg[?cell := 0]\<rparr>)) = Some st1"
      and ad0: "adds n (st\<lparr>assignment := ?asg[?cell := 0]\<rparr>) st1
                   (gainC (accepted n order orderPos cc lcs) R (completions n orderPos (pos + 1) (?asg[?cell := 0])))
                   (gainB (accepted n order orderPos cc lcs) R (completions n orderPos (pos + 1) (?asg[?cell := 0])))"
      by blast
    have as1: "assignment st1 = ?asg" using ad0 a0 by (simp add: adds_def)
    have vs1: "vset (assignment st1) ?cell 1 = Some (?asg[?cell := 1])"
      using cell len as1 by (simp add: vset_def)
    \<comment> \<open>the counters of \<open>st1\<close> and the assignment of \<open>st\<close>\<close>
    let ?s1 = "st1\<lparr>assignment := ?asg\<rparr>"
    have s1: "st1 = ?s1" using as1 by simp
    have inv1: "enum_inv n order orderPos cc lcs pos numBad st1"
    proof -
      have "length (counts st1) = n + 1" "length (badCnts st1) = n"
        using ad0 inv by (simp_all add: adds_def enum_inv_def)
      moreover have "\<forall>row \<in> set (badCnts st1). length row = n + 1"
      proof
        fix row assume "row \<in> set (badCnts st1)"
        then obtain i where i: "i < length (badCnts st1)" "badCnts st1 ! i = row"
          by (auto simp: in_set_conv_nth)
        then have "i < n" using \<open>length (badCnts st1) = n\<close> by simp
        then have "length (badCnts st1 ! i) = length (badCnts st ! i)" using ad0 by (simp add: adds_def)
        moreover have "length (badCnts st ! i) = n + 1" using inv \<open>i < n\<close> by (simp add: enum_inv_def)
        ultimately show "length row = n + 1" using i by simp
      qed
      ultimately show ?thesis using inv as1 by (simp add: enum_inv_def)
    qed
    have "\<exists>b st'. checkCell ?cell cc lcs pos orderPos ((assignment st1)[?cell := 1]) = Some b
           \<and> (if b then enumerateComponent (pos + 1) (numBad + 1) n R order orderPos cc lcs
                   (st1\<lparr>assignment := (assignment st1)[?cell := 1]\<rparr>)
               else Some (st1\<lparr>assignment := (assignment st1)[?cell := 1]\<rparr>)) = Some st'
           \<and> adds n (st1\<lparr>assignment := (assignment st1)[?cell := 1]\<rparr>) st'
                   (gainC (accepted n order orderPos cc lcs) R (completions n orderPos (pos + 1) ((assignment st1)[?cell := 1])))
                   (gainB (accepted n order orderPos cc lcs) R (completions n orderPos (pos + 1) ((assignment st1)[?cell := 1])))"
    proof (rule branch_adds [OF wf inv1 pos])
      show "(1::nat) \<in> {0, 1}" by simp
    next
      fix b
      assume "checkCell ?cell cc lcs pos orderPos ((assignment st1)[?cell := 1]) = Some b" b
        "enum_inv n order orderPos cc lcs (pos + 1) (numBad + 1) (st1\<lparr>assignment := (assignment st1)[?cell := 1]\<rparr>)"
      with "1.IH"(2) [OF step vg vs0 c0 e0 vs1 _ _ wf] as1
      show "\<exists>st'. enumerateComponent (pos + 1) (numBad + 1) n R order orderPos cc lcs
                   (st1\<lparr>assignment := (assignment st1)[?cell := 1]\<rparr>) = Some st'
              \<and> adds n (st1\<lparr>assignment := (assignment st1)[?cell := 1]\<rparr>) st'
                   (gainC (accepted n order orderPos cc lcs) R (completions n orderPos (pos + 1) ((assignment st1)[?cell := 1])))
                   (gainB (accepted n order orderPos cc lcs) R (completions n orderPos (pos + 1) ((assignment st1)[?cell := 1])))"
        by simp
    qed
    then obtain b1 st2 where
      c1: "checkCell ?cell cc lcs pos orderPos (?asg[?cell := 1]) = Some b1"
      and e1: "(if b1 then enumerateComponent (pos + 1) (numBad + 1) n R order orderPos cc lcs
                   (st1\<lparr>assignment := ?asg[?cell := 1]\<rparr>)
               else Some (st1\<lparr>assignment := ?asg[?cell := 1]\<rparr>)) = Some st2"
      and ad1: "adds n (st1\<lparr>assignment := ?asg[?cell := 1]\<rparr>) st2
                   (gainC (accepted n order orderPos cc lcs) R (completions n orderPos (pos + 1) (?asg[?cell := 1])))
                   (gainB (accepted n order orderPos cc lcs) R (completions n orderPos (pos + 1) (?asg[?cell := 1])))"
      unfolding as1 by blast
    have as2: "assignment st2 = ?asg[?cell := 1]" using ad1 by (simp add: adds_def)
    have vs2: "vset (assignment st2) ?cell 0 = Some ?asg"
      using cell len as2 a0 by (simp add: vset_def)
    have run: "enumerateComponent pos numBad n R order orderPos cc lcs st = Some (st2\<lparr>assignment := ?asg\<rparr>)"
      by (subst enumerateComponent.simps)
         (simp only: step if_False vg vs0 c0 e0 vs1 c1 e1 vs2 Option.bind.simps)
    have sp: "completions n orderPos pos ?asg
         = completions n orderPos (pos + 1) (?asg[?cell := 0])
           \<union> completions n orderPos (pos + 1) (?asg[?cell := 1])"
      and dj: "completions n orderPos (pos + 1) (?asg[?cell := 0])
           \<inter> completions n orderPos (pos + 1) (?asg[?cell := 1]) = {}"
      using completions_split [OF wf pos len] by blast+
    have gC: "gainC (accepted n order orderPos cc lcs) R (completions n orderPos pos ?asg) k
            = gainC (accepted n order orderPos cc lcs) R (completions n orderPos (pos + 1) (?asg[?cell := 0])) k
              + gainC (accepted n order orderPos cc lcs) R (completions n orderPos (pos + 1) (?asg[?cell := 1])) k" for k
      by (subst sp, rule gain_union(1) [OF finite_completions finite_completions dj])
    have gB: "gainB (accepted n order orderPos cc lcs) R (completions n orderPos pos ?asg) i k
            = gainB (accepted n order orderPos cc lcs) R (completions n orderPos (pos + 1) (?asg[?cell := 0])) i k
              + gainB (accepted n order orderPos cc lcs) R (completions n orderPos (pos + 1) (?asg[?cell := 1])) i k" for i k
      by (subst sp, rule gain_union(2) [OF finite_completions finite_completions dj])
    have "adds n st (st2\<lparr>assignment := ?asg\<rparr>)
            (gainC (accepted n order orderPos cc lcs) R (completions n orderPos pos ?asg))
            (gainB (accepted n order orderPos cc lcs) R (completions n orderPos pos ?asg))"
      using ad0 ad1 unfolding adds_def gC gB by simp
    with run show ?thesis by simp
  qed
qed

subsection \<open>The counts of the specification\<close>

text \<open>
  Following the specification: \<open>spec_counts lcs s k\<close> is the number of assignments of
  bad/safe to the \<open>s\<close> cells of a component that satisfy all of its constraints and
  contain exactly \<open>k\<close> bad cells, and \<open>spec_cellBadCount lcs s cell k\<close> the number of
  those same assignments in which \<open>cell\<close> is bad.
\<close>

definition assignments :: "nat \<Rightarrow> nat list list" where
  "assignments s = List.n_lists s [0, 1]"

definition spec_counts :: "LocalConstraint list \<Rightarrow> nat \<Rightarrow> nat \<Rightarrow> nat" where
  "spec_counts lcs s k = length (filter (\<lambda>a. satisfies lcs a \<and> sum_list a = k) (assignments s))"

definition spec_cellBadCount :: "LocalConstraint list \<Rightarrow> nat \<Rightarrow> nat \<Rightarrow> nat \<Rightarrow> nat" where
  "spec_cellBadCount lcs s cell k =
     length (filter (\<lambda>a. satisfies lcs a \<and> sum_list a = k \<and> a ! cell = 1) (assignments s))"

lemma set_assignments: "set (assignments n) = {a. length a = n \<and> set a \<subseteq> {0, 1}}"
  by (auto simp: assignments_def set_n_lists)

lemma distinct_assignments: "distinct (assignments n)"
  by (simp add: assignments_def distinct_n_lists)

lemma completions_zero: "completions n orderPos 0 asg = set (assignments n)"
  by (auto simp: completions_def set_assignments)

lemma card_filter_assignments:
  "card {a \<in> set (assignments n). P a} = length (filter P (assignments n))"
proof -
  have "{a \<in> set (assignments n). P a} = set (filter P (assignments n))" by auto
  then show ?thesis
    using distinct_card [of "filter P (assignments n)"] distinct_assignments by simp
qed

lemma accepted_iff_satisfies:
  assumes wf: "wf_enum n order orderPos cc lcs" and cov: "covers cc lcs"
    and a: "length a = n" "set a \<subseteq> {0, 1}"
  shows "accepted n order orderPos cc lcs a = satisfies lcs a"
proof
  assume sat: "satisfies lcs a"
  show "accepted n order orderPos cc lcs a"
    unfolding accepted_def
  proof (intro allI impI ballI)
    fix p ci assume p: "p < n" and ci: "ci \<in> set (cc ! (order ! p))"
    have "order ! p < n" using wf p by (simp add: wf_enum_def)
    then have "ci < length lcs" using wf ci by (simp add: wf_enum_def)
    then have m: "lcs ! ci \<in> set lcs" by simp
    then have "\<forall>li \<in> set (localIdx (lcs ! ci)). li < n" using wf by (simp add: wf_enum_def)
    moreover have "satisfiesOne (lcs ! ci) a" using sat m by (simp add: satisfies_def)
    ultimately show "passes (lcs ! ci) p orderPos a"
      using satisfiesOne_passes [OF a] by blast
  qed
next
  assume acc: "accepted n order orderPos cc lcs a"
  show "satisfies lcs a"
    unfolding satisfies_def
  proof
    fix lc assume "lc \<in> set lcs"
    then obtain ci where ci: "ci < length lcs" "lcs ! ci = lc" by (auto simp: in_set_conv_nth)
    have ne: "localIdx lc \<noteq> []" and listed: "\<forall>li \<in> set (localIdx lc). ci \<in> set (cc ! li)"
      using cov ci by (auto simp: covers_def)
    have mem: "\<forall>li \<in> set (localIdx lc). li < n" using wf \<open>lc \<in> set lcs\<close> by (simp add: wf_enum_def)
    let ?ps = "(\<lambda>li. orderPos ! li) ` set (localIdx lc)"
    have fin: "finite ?ps" and nem: "?ps \<noteq> {}" using ne by auto
    from Max_in [OF fin nem] obtain l where l: "l \<in> set (localIdx lc)" "orderPos ! l = Max ?ps"
      by auto
    have le: "\<forall>li \<in> set (localIdx lc). orderPos ! li \<le> orderPos ! l"
      using Max_ge [OF fin] l(2) by auto
    have ln: "l < n" using mem l by simp
    then have p: "orderPos ! l < n" "order ! (orderPos ! l) = l" using wf by (auto simp: wf_enum_def)
    have "ci \<in> set (cc ! (order ! (orderPos ! l)))" using listed l p by simp
    then have "passes (lcs ! ci) (orderPos ! l) orderPos a"
      using acc p(1) by (auto simp: accepted_def)
    then show "satisfiesOne lc a" using passes_decided [OF le] ci by simp
  qed
qed

lemma initEnum_inv:
  "enum_inv n order orderPos cc lcs 0 0 (initEnum n)"
  by (auto simp: enum_inv_def initEnum_def)

lemma initEnum_zero:
  "assignment (initEnum n) = replicate n 0"
  "length (counts (initEnum n)) = n + 1"
  "length (badCnts (initEnum n)) = n"
  "k \<le> n \<Longrightarrow> counts (initEnum n) ! k = 0"
  "i < n \<Longrightarrow> length (badCnts (initEnum n) ! i) = n + 1"
  "i < n \<Longrightarrow> k \<le> n \<Longrightarrow> badCnts (initEnum n) ! i ! k = 0"
proof -
  have r: "replicate (n + 1) (0::real) ! k = 0" if "k \<le> n" for k
    using that by (intro nth_replicate) simp
  show "assignment (initEnum n) = replicate n 0" "length (counts (initEnum n)) = n + 1"
    "length (badCnts (initEnum n)) = n" by (simp_all add: initEnum_def)
  show "k \<le> n \<Longrightarrow> counts (initEnum n) ! k = 0" using r by (simp add: initEnum_def)
  show "i < n \<Longrightarrow> length (badCnts (initEnum n) ! i) = n + 1" by (simp add: initEnum_def)
  show "i < n \<Longrightarrow> k \<le> n \<Longrightarrow> badCnts (initEnum n) ! i ! k = 0" using r by (simp add: initEnum_def)
qed

lemma enumerate_init:
  assumes wf: "wf_enum n order orderPos cc lcs"
  shows "\<exists>st'. enumerateComponent 0 0 n R order orderPos cc lcs (initEnum n) = Some st'
           \<and> assignment st' = replicate n 0
           \<and> length (counts st') = n + 1 \<and> length (badCnts st') = n
           \<and> (\<forall>k \<le> n. counts st' ! k = gainC (accepted n order orderPos cc lcs) R (set (assignments n)) k)
           \<and> (\<forall>i < n. length (badCnts st' ! i) = n + 1
                \<and> (\<forall>k \<le> n. badCnts st' ! i ! k = gainB (accepted n order orderPos cc lcs) R (set (assignments n)) i k))"
proof -
  from enumerate_adds [OF wf initEnum_inv, of R]
  obtain st' where r: "enumerateComponent 0 0 n R order orderPos cc lcs (initEnum n) = Some st'"
    and ad: "adds n (initEnum n) st' (gainC (accepted n order orderPos cc lcs) R (completions n orderPos 0 (assignment (initEnum n))))
                           (gainB (accepted n order orderPos cc lcs) R (completions n orderPos 0 (assignment (initEnum n))))"
    by blast
  show ?thesis
    using r ad unfolding adds_def completions_zero
    by (simp add: initEnum_zero)
qed

subsection \<open>Exact counts up to the budget, zero above it\<close>

text \<open>A component of two cells under one clue that asks for one or two bad cells.\<close>

definition exampleLcs :: "LocalConstraint list" where
  "exampleLcs = [\<lparr>localIdx = [0, 1], lminBad = 1, lmaxBad = 2\<rparr>]"


text \<open>
  Claim C3. Started as \<open>solve\<close> starts it (position 0, no bad cell, all counters zero) on
  well-formed arguments, for any order of the cells, the enumeration returns, and for
  every \<open>k\<close> up to \<open>remainingBad\<close> (and up to the size of the component, the last index
  of the vectors) \<open>counts[k]\<close> is the number of complete bad/safe assignments that satisfy
  all constraints of the component and have exactly \<open>k\<close> bad cells, \<open>badCnts[i][k]\<close> is
  the number of those in which cell \<open>i\<close> is bad, and \<open>badCnts[i][k] \<le> counts[k]\<close>.
\<close>

theorem enumerateComponent_exact:
  assumes wf: "wf_enum compSize order orderPos cellConstraints localConstraints"
    and cov: "covers cellConstraints localConstraints"
  shows "\<exists>st'. enumerateComponent 0 0 compSize remainingBad order orderPos cellConstraints
                 localConstraints (initEnum compSize) = Some st'
           \<and> (\<forall>k \<le> compSize. int k \<le> remainingBad \<longrightarrow>
                 counts st' ! k = real (spec_counts localConstraints compSize k)
                 \<and> (\<forall>i < compSize.
                       badCnts st' ! i ! k = real (spec_cellBadCount localConstraints compSize i k)
                       \<and> badCnts st' ! i ! k \<le> counts st' ! k))"
proof -
  let ?P = "accepted compSize order orderPos cellConstraints localConstraints"
  let ?A = "set (assignments compSize)"
  from enumerate_init [OF wf, of remainingBad]
  obtain st' where r: "enumerateComponent 0 0 compSize remainingBad order orderPos cellConstraints
                 localConstraints (initEnum compSize) = Some st'"
    and c: "\<forall>k \<le> compSize. counts st' ! k = gainC ?P remainingBad ?A k"
    and b: "\<forall>i < compSize. \<forall>k \<le> compSize. badCnts st' ! i ! k = gainB ?P remainingBad ?A i k"
    by blast
  have acc: "?P a = satisfies localConstraints a" if "a \<in> ?A" for a
    using accepted_iff_satisfies [OF wf cov] that by (simp add: set_assignments)
  have f: "found ?P ?A k = {a \<in> ?A. satisfies localConstraints a \<and> sum_list a = k}" for k
    using acc by (auto simp: found_def)
  have one: "a ! i \<noteq> 0 \<longleftrightarrow> a ! i = 1" if "a \<in> ?A" "i < compSize" for a i
  proof -
    have "a ! i \<in> set a" and "set a \<subseteq> {0, 1}" using that by (simp_all add: set_assignments)
    then have "a ! i \<in> {0, 1}" by blast
    then show ?thesis by auto
  qed
  have fb: "foundBad ?P ?A i k = {a \<in> ?A. satisfies localConstraints a \<and> sum_list a = k \<and> a ! i = 1}"
    if "i < compSize" for i k
    using acc one that by (auto simp: foundBad_def)
  have gc: "gainC ?P remainingBad ?A k = real (spec_counts localConstraints compSize k)"
    if "int k \<le> remainingBad" for k
    using that by (simp add: gainC_def f card_filter_assignments spec_counts_def)
  have gb: "gainB ?P remainingBad ?A i k = real (spec_cellBadCount localConstraints compSize i k)"
    if "int k \<le> remainingBad" "i < compSize" for i k
    using that by (simp add: gainB_def fb card_filter_assignments spec_cellBadCount_def)
  have le: "spec_cellBadCount localConstraints compSize i k \<le> spec_counts localConstraints compSize k" for i k
  proof -
    have "filter (\<lambda>a. satisfies localConstraints a \<and> sum_list a = k \<and> a ! i = 1) (assignments compSize)
          = filter (\<lambda>a. a ! i = 1) (filter (\<lambda>a. satisfies localConstraints a \<and> sum_list a = k) (assignments compSize))"
      by (simp add: conj_commute conj_left_commute)
    then show ?thesis
      unfolding spec_cellBadCount_def spec_counts_def by (metis length_filter_le)
  qed
  show ?thesis
    using r c b gc gb le by (intro exI [of _ st']) auto
qed

theorem enumerateComponent_exact_witness:
  "wf_enum 2 [1, 0] [1, 0] [[0], [0]] exampleLcs \<and> covers [[0], [0]] exampleLcs
   \<and> (\<exists>st'. enumerateComponent 0 0 2 1 [1, 0] [1, 0] [[0], [0]] exampleLcs (initEnum 2) = Some st'
         \<and> counts st' ! 0 = 0 \<and> counts st' ! 1 = 2
         \<and> badCnts st' ! 0 ! 1 = 1 \<and> badCnts st' ! 1 ! 1 = 1
         \<and> spec_counts exampleLcs 2 1 = 2 \<and> spec_cellBadCount exampleLcs 2 0 1 = 1)"
proof -
  have wf: "wf_enum 2 [1, 0] [1, 0] [[0], [0]] exampleLcs" by code_simp
  have cov: "covers [[0], [0]] exampleLcs" by code_simp
  have s: "spec_counts exampleLcs 2 0 = 0" "spec_counts exampleLcs 2 1 = 2"
    "spec_cellBadCount exampleLcs 2 0 1 = 1" "spec_cellBadCount exampleLcs 2 1 1 = 1"
    by code_simp+
  from enumerateComponent_exact [OF wf cov, of 1] obtain st' where
    r: "enumerateComponent 0 0 2 1 [1, 0] [1, 0] [[0], [0]] exampleLcs (initEnum 2) = Some st'"
    and e: "\<forall>k \<le> 2. int k \<le> 1 \<longrightarrow>
                 counts st' ! k = real (spec_counts exampleLcs 2 k)
                 \<and> (\<forall>i < 2. badCnts st' ! i ! k = real (spec_cellBadCount exampleLcs 2 i k)
                       \<and> badCnts st' ! i ! k \<le> counts st' ! k)"
    by blast
  from e have "counts st' ! 0 = 0" "counts st' ! 1 = 2" "badCnts st' ! 0 ! 1 = 1" "badCnts st' ! 1 ! 1 = 1"
    using s by auto
  with wf cov r s show ?thesis by simp
qed

text \<open>
  Claim C10. On the same arguments, for every \<open>k\<close> above \<open>remainingBad\<close> (up to the size
  of the component) the returned \<open>counts[k]\<close> and \<open>badCnts[i][k]\<close> are exactly 0, whatever
  the constraints allow: the budget test at the head of \<open>enumerateComponent\<close> cuts the
  distribution off above \<open>remainingBad\<close>. In the example two bad cells satisfy the
  constraint, yet with \<open>remainingBad = 1\<close> the count at 2 is 0.
\<close>

theorem enumerateComponent_truncated:
  assumes wf: "wf_enum compSize order orderPos cellConstraints localConstraints"
  shows "\<exists>st'. enumerateComponent 0 0 compSize remainingBad order orderPos cellConstraints
                 localConstraints (initEnum compSize) = Some st'
           \<and> (\<forall>k \<le> compSize. remainingBad < int k \<longrightarrow>
                 counts st' ! k = 0 \<and> (\<forall>i < compSize. badCnts st' ! i ! k = 0))"
proof -
  from enumerate_init [OF wf, of remainingBad]
  show ?thesis by (auto simp: gainC_def gainB_def)
qed

theorem enumerateComponent_truncated_witness:
  "wf_enum 2 [1, 0] [1, 0] [[0], [0]] exampleLcs
   \<and> (\<exists>st'. enumerateComponent 0 0 2 1 [1, 0] [1, 0] [[0], [0]] exampleLcs (initEnum 2) = Some st'
         \<and> counts st' ! 2 = 0 \<and> badCnts st' ! 0 ! 2 = 0 \<and> badCnts st' ! 1 ! 2 = 0
         \<and> spec_counts exampleLcs 2 2 = 1)"
proof -
  have wf: "wf_enum 2 [1, 0] [1, 0] [[0], [0]] exampleLcs" by code_simp
  have s: "spec_counts exampleLcs 2 2 = 1" by code_simp
  from enumerateComponent_truncated [OF wf, of 1] obtain st' where
    r: "enumerateComponent 0 0 2 1 [1, 0] [1, 0] [[0], [0]] exampleLcs (initEnum 2) = Some st'"
    and e: "\<forall>k \<le> 2. 1 < int k \<longrightarrow> counts st' ! k = 0 \<and> (\<forall>i < 2. badCnts st' ! i ! k = 0)"
    by blast
  from e have "counts st' ! 2 = 0" "badCnts st' ! 0 ! 2 = 0" "badCnts st' ! 1 ! 2 = 0" by auto
  with wf r s show ?thesis by simp
qed

section \<open>The solver pipeline (\<open>solve\<close>)\<close>

text \<open>
  \<open>Constraint\<close>: the hidden neighbours of one clue, as positions in the sorted frontier,
  and the bounds on the number of bad cells among them. \<open>ComponentResult\<close>: the fields
  \<open>size\<close> and \<open>counts\<close> of the source are \<open>size_cr\<close> and \<open>counts_cr\<close> here.
\<close>

record Constraint =
  frontierLocalIdx :: "nat list"
  minBad :: int
  maxBad :: int

record ComponentResult =
  size_cr :: nat
  counts_cr :: "real list"
  badCounts :: "real list list"
  globalIndices :: "nat list"

text \<open>\<open>binomial\<close>: the loop multiplies by \<open>n - i\<close> and divides by \<open>i + 1\<close> in turn.\<close>

definition binomial :: "int \<Rightarrow> int \<Rightarrow> real" where
  "binomial n k =
     (if k < 0 \<or> k > n then 0
      else if k = 0 \<or> k = n then 1
      else (let k' = (if k > n - k then n - k else k)
            in foldl (\<lambda>result i. result * real_of_int (n - int i) / real_of_int (int i + 1))
                 1 [0..<nat k']))"

text \<open>
  \<open>UnionFind\<close>: the \<open>parent\<close> vector. \<open>find\<close> compresses the path it walks, so it
  returns the new vector with the representative; it need not terminate on a vector with a
  cycle, hence a partial function (\<open>None\<close> also when it reads outside the vector).
\<close>

definition uf_init :: "nat \<Rightarrow> nat list" where
  "uf_init n = [0..<n]"

partial_function (option) uf_find :: "nat list \<Rightarrow> nat \<Rightarrow> (nat \<times> nat list) option" where
  "uf_find parent x =
     (if x < length parent
      then (if parent ! x = x then Some (x, parent)
            else do { (r, p') \<leftarrow> uf_find parent (parent ! x); p'' \<leftarrow> vset p' x r; Some (r, p'') })
      else None)"

declare uf_find.simps [code]

definition uf_unite :: "nat list \<Rightarrow> nat \<Rightarrow> nat \<Rightarrow> nat list option" where
  "uf_unite parent a b =
     do {
       (a', p1) \<leftarrow> uf_find parent a;
       (b', p2) \<leftarrow> uf_find p1 b;
       if a' \<noteq> b' then vset p2 a' b' else Some p2
     }"

text \<open>\<open>convolve\<close>: the two nested loops over \<open>i\<close> and \<open>j\<close> on a zero vector.\<close>

definition convolve :: "real list \<Rightarrow> real list \<Rightarrow> real list" where
  "convolve a b =
     (if a = [] \<or> b = [] then []
      else foldl (\<lambda>result i.
                    foldl (\<lambda>result j. result[i + j := result ! (i + j) + a ! i * b ! j])
                      result [0..<length b])
             (replicate (length a + length b - 1) 0) [0..<length a])"

subsection \<open>Step 1: classification\<close>

text \<open>
  The loop over all cells. \<open>probs\<close> is \<open>badProb\<close> as the loop updates it; the index
  runs below \<open>TOTAL_CELLS\<close>, the size of both arrays.
\<close>

record Classification =
  probs :: "real list"
  unknownCells :: "nat list"
  constraintCells :: "nat list"
  knownBad :: nat

definition classifyCell :: "CellContent list \<Rightarrow> Classification \<Rightarrow> nat \<Rightarrow> Classification" where
  "classifyCell g c i =
     (if isRevealedBad (g ! i) then c\<lparr>probs := (probs c)[i := 1], knownBad := knownBad c + 1\<rparr>
      else if isRevealedGood (g ! i) then c\<lparr>probs := (probs c)[i := 0], constraintCells := constraintCells c @ [i]\<rparr>
      else c\<lparr>unknownCells := unknownCells c @ [i]\<rparr>)"

definition classify :: "CellContent list \<Rightarrow> real list \<Rightarrow> Classification" where
  "classify g bp =
     foldl (classifyCell g) \<lparr>probs = bp, unknownCells = [], constraintCells = [], knownBad = 0\<rparr>
       [0..<TOTAL_CELLS]"

text \<open>\<open>for (int idx : cells) badProb[idx] = p\<close>.\<close>

definition assignAll :: "nat list \<Rightarrow> real \<Rightarrow> real list \<Rightarrow> real list" where
  "assignAll idxs p bp = foldl (\<lambda>bp idx. bp[idx := p]) bp idxs"

subsection \<open>Step 2: frontier and interior\<close>

text \<open>
  \<open>frontierSet\<close> is an \<open>unordered_set\<close>; the source only tests membership in it and
  copies it into a vector that it sorts at once, so a list without repetitions stands
  for it. \<open>unknownSet\<close> holds the elements of \<open>unknownCells\<close>.
\<close>

definition buildFrontierSet :: "nat list \<Rightarrow> nat list \<Rightarrow> nat list" where
  "buildFrontierSet unknown clues =
     foldl (\<lambda>fs ci. foldl (\<lambda>fs n. if n \<in> set unknown then List.insert n fs else fs) fs (getNeighbors ci))
       [] clues"

subsection \<open>Step 3: constraints\<close>

text \<open>
  \<open>std::lower_bound\<close> on the sorted frontier returns the first position whose element
  is not below \<open>n\<close>. The neighbours \<open>n\<close> of a cell are cells of the grid, so
  \<open>grid[n]\<close> reads inside the array.
\<close>

definition lower_bound :: "nat list \<Rightarrow> nat \<Rightarrow> nat" where
  "lower_bound xs n = length (takeWhile (\<lambda>x. x < n) xs)"

definition scanNeighbors :: "CellContent list \<Rightarrow> nat list \<Rightarrow> nat list \<Rightarrow> nat list \<Rightarrow> nat \<times> nat list" where
  "scanNeighbors g frontierSet frontier nbrs =
     foldl (\<lambda>(knownBadN, fnbrs) n.
              if isRevealedBad (g ! n) then (knownBadN + 1, fnbrs)
              else if n \<in> set frontierSet then (knownBadN, fnbrs @ [lower_bound frontier n])
              else (knownBadN, fnbrs))
       (0, []) nbrs"

definition clueConstraint :: "CellContent list \<Rightarrow> nat list \<Rightarrow> nat list \<Rightarrow> nat \<Rightarrow> Constraint list" where
  "clueConstraint g frontierSet frontier ci =
     (let (minB, maxB) = badNeighborRange (g ! ci);
          nbrs = getNeighbors ci;
          (knownBadN, fnbrs) = scanNeighbors g frontierSet frontier nbrs;
          adjMin = max 0 (minB - int knownBadN);
          adjMax = maxB - int knownBadN;
          adjMax = (if adjMax < 0 then 0 else adjMax);
          adjMax = min adjMax (int (length fnbrs));
          adjMin = min adjMin (int (length fnbrs))
      in if fnbrs \<noteq> [] then [\<lparr>frontierLocalIdx = fnbrs, minBad = adjMin, maxBad = adjMax\<rparr>] else [])"

definition buildConstraints :: "CellContent list \<Rightarrow> nat list \<Rightarrow> nat list \<Rightarrow> nat list \<Rightarrow> Constraint list" where
  "buildConstraints g frontierSet frontier clues = concat (map (clueConstraint g frontierSet frontier) clues)"

subsection \<open>Step 4: components\<close>

text \<open>
  \<open>components\<close> is an \<open>unordered_map\<close> from a representative to the members pushed
  under it. Its iteration order is unspecified in C++; the model keeps the entries in the
  order of their first insertion.
\<close>

fun uniteWith :: "nat \<Rightarrow> nat list \<Rightarrow> nat list \<Rightarrow> nat list option" where
  "uniteWith f [] parent = Some parent"
| "uniteWith f (x # xs) parent = do { p \<leftarrow> uf_unite parent f x; uniteWith f xs p }"

fun uniteConstraints :: "Constraint list \<Rightarrow> nat list \<Rightarrow> nat list option" where
  "uniteConstraints [] parent = Some parent"
| "uniteConstraints (con # cons) parent =
     do {
       p \<leftarrow> (case frontierLocalIdx con of [] \<Rightarrow> Some parent | f # xs \<Rightarrow> uniteWith f xs parent);
       uniteConstraints cons p
     }"

definition pushMember :: "(nat \<times> nat list) list \<Rightarrow> nat \<Rightarrow> nat \<Rightarrow> (nat \<times> nat list) list" where
  "pushMember comps r i =
     (if r \<in> fst ` set comps
      then map (\<lambda>(k, ms). if k = r then (k, ms @ [i]) else (k, ms)) comps
      else comps @ [(r, [i])])"

fun groupComponents :: "nat list \<Rightarrow> nat list \<Rightarrow> (nat \<times> nat list) list
                          \<Rightarrow> ((nat \<times> nat list) list \<times> nat list) option" where
  "groupComponents [] parent comps = Some (comps, parent)"
| "groupComponents (i # rest) parent comps =
     do { (r, p) \<leftarrow> uf_find parent i; groupComponents rest p (pushMember comps r i) }"

subsection \<open>Step 5: one component\<close>

text \<open>
  \<open>globalToLocal\<close> maps a frontier position to its index among the members.
  \<open>isRelevant\<close> is the loop with \<open>break\<close> that looks for a cell of the constraint whose
  representative is the component's (\<open>rootId\<close> is \<open>root\<close> of the source); every call of
  \<open>find\<close> in it may compress paths, so the parent vector is threaded through.
  \<open>std::sort\<close> leaves the order of cells with equally many constraints unspecified; the
  model keeps them in index order.
\<close>

definition buildGlobalToLocal :: "nat list \<Rightarrow> (nat \<rightharpoonup> nat)" where
  "buildGlobalToLocal members = foldl (\<lambda>m i. m(members ! i \<mapsto> i)) Map.empty [0..<length members]"

fun isRelevant :: "nat list \<Rightarrow> nat \<Rightarrow> nat list \<Rightarrow> (bool \<times> nat list) option" where
  "isRelevant [] rootId parent = Some (False, parent)"
| "isRelevant (fi # rest) rootId parent =
     do { (r, p) \<leftarrow> uf_find parent fi; if r = rootId then Some (True, p) else isRelevant rest rootId p }"

fun filterConstraints :: "Constraint list \<Rightarrow> nat \<Rightarrow> (nat \<rightharpoonup> nat) \<Rightarrow> nat list \<Rightarrow> LocalConstraint list
                            \<Rightarrow> (LocalConstraint list \<times> nat list) option" where
  "filterConstraints [] rootId g2l parent acc = Some (acc, parent)"
| "filterConstraints (con # cons) rootId g2l parent acc =
     do {
       (relevant, p) \<leftarrow> isRelevant (frontierLocalIdx con) rootId parent;
       if \<not> relevant then filterConstraints cons rootId g2l p acc
       else filterConstraints cons rootId g2l p
              (acc @ [\<lparr>localIdx = List.map_filter g2l (frontierLocalIdx con),
                       lminBad = minBad con, lmaxBad = maxBad con\<rparr>])
     }"

fun pushConstraint :: "nat \<Rightarrow> nat list \<Rightarrow> nat list list \<Rightarrow> nat list list option" where
  "pushConstraint ci [] cc = Some cc"
| "pushConstraint ci (li # rest) cc =
     do { row \<leftarrow> vget cc li; cc' \<leftarrow> vset cc li (row @ [ci]); pushConstraint ci rest cc' }"

fun buildCellConstraints :: "nat list \<Rightarrow> LocalConstraint list \<Rightarrow> nat list list \<Rightarrow> nat list list option" where
  "buildCellConstraints [] lcs cc = Some cc"
| "buildCellConstraints (ci # rest) lcs cc =
     do { lc \<leftarrow> vget lcs ci; cc' \<leftarrow> pushConstraint ci (localIdx lc) cc; buildCellConstraints rest lcs cc' }"

definition cellOrder :: "nat list list \<Rightarrow> nat \<Rightarrow> nat list" where
  "cellOrder cellConstraints compSize =
     sort_key (\<lambda>a. - int (length (cellConstraints ! a))) [0..<compSize]"

definition buildOrderPos :: "nat list \<Rightarrow> nat \<Rightarrow> nat list" where
  "buildOrderPos order compSize = foldl (\<lambda>op i. op[order ! i := i]) (replicate compSize 0) [0..<compSize]"

fun fallbackAssign :: "nat list \<Rightarrow> nat list \<Rightarrow> real \<Rightarrow> real list \<Rightarrow> real list option" where
  "fallbackAssign [] frontier p bp = Some bp"
| "fallbackAssign (m # rest) frontier p bp =
     do { gi \<leftarrow> vget frontier m; bp' \<leftarrow> vset bp gi p; fallbackAssign rest frontier p bp' }"

record CompLoop =
  uf_parent :: "nat list"
  loopProb :: "real list"
  compResults :: "ComponentResult list"

definition solveComponent ::
  "Constraint list \<Rightarrow> nat list \<Rightarrow> int \<Rightarrow> nat \<Rightarrow> CompLoop \<Rightarrow> nat \<times> nat list \<Rightarrow> CompLoop option" where
  "solveComponent constraints frontier remainingBad numUnknown st kv =
     (let rootId = fst kv; members = snd kv; compSize = length members;
          globalToLocal = buildGlobalToLocal members
      in do {
        (localConstraints, parent) \<leftarrow> filterConstraints constraints rootId globalToLocal (uf_parent st) [];
        if compSize \<le> 40
        then do {
          cellConstraints \<leftarrow> buildCellConstraints [0..<length localConstraints] localConstraints
                               (replicate compSize []);
          let order = cellOrder cellConstraints compSize;
              orderPos = buildOrderPos order compSize
          in do {
            es \<leftarrow> enumerateComponent 0 0 compSize remainingBad order orderPos cellConstraints
                    localConstraints (initEnum compSize);
            Some (st\<lparr>uf_parent := parent,
                     compResults := compResults st @
                       [\<lparr>size_cr = compSize, counts_cr = counts es, badCounts = badCnts es,
                         globalIndices = members\<rparr>]\<rparr>)
          }
        }
        else do {
          bp \<leftarrow> fallbackAssign members frontier (real_of_int remainingBad / real_of_int (int numUnknown))
                  (loopProb st);
          Some (st\<lparr>uf_parent := parent, loopProb := bp,
                   compResults := compResults st @
                     [\<lparr>size_cr = compSize, counts_cr = [], badCounts = [], globalIndices = members\<rparr>]\<rparr>)
        }
      })"

fun solveComponents ::
  "Constraint list \<Rightarrow> nat list \<Rightarrow> int \<Rightarrow> nat \<Rightarrow> (nat \<times> nat list) list \<Rightarrow> CompLoop \<Rightarrow> CompLoop option" where
  "solveComponents constraints frontier remainingBad numUnknown [] st = Some st"
| "solveComponents constraints frontier remainingBad numUnknown (kv # rest) st =
     do {
       st' \<leftarrow> solveComponent constraints frontier remainingBad numUnknown st kv;
       solveComponents constraints frontier remainingBad numUnknown rest st'
     }"

subsection \<open>Step 6: global combination\<close>

text \<open>
  \<open>combine\<close> runs steps 2 to 6 and returns what the rest of \<open>solve\<close> reads: the
  frontier, the interior, the component results, \<open>badProb\<close> as the component loop left
  it, the two polynomials and \<open>totalWays\<close>.
\<close>

definition interiorPolyOf :: "nat \<Rightarrow> real list" where
  "interiorPolyOf numInterior = map (\<lambda>m. binomial (int numInterior) (int m)) [0..<numInterior + 1]"

definition compProdOf :: "ComponentResult list \<Rightarrow> real list" where
  "compProdOf crs =
     foldl (\<lambda>compProd cr. if counts_cr cr = [] then compProd else convolve compProd (counts_cr cr))
       [1] crs"

definition totalWaysOf :: "int \<Rightarrow> real list \<Rightarrow> real" where
  "totalWaysOf remainingBad totalPoly =
     (if remainingBad < int (length totalPoly) then totalPoly ! nat remainingBad else 0)"

record Combined =
  frontierOf :: "nat list"
  interiorOf :: "nat list"
  resultsOf :: "ComponentResult list"
  probsOf :: "real list"
  interiorPoly :: "real list"
  compProd :: "real list"
  totalWays :: real

definition combine :: "CellContent list \<Rightarrow> Classification \<Rightarrow> int \<Rightarrow> Combined option" where
  "combine g c remainingBad =
     (let frontierSet = buildFrontierSet (unknownCells c) (constraintCells c);
          frontier = sort frontierSet;
          interior = filter (\<lambda>idx. idx \<notin> set frontierSet) (unknownCells c);
          numFrontier = length frontier;
          numInterior = length interior;
          constraints = buildConstraints g frontierSet frontier (constraintCells c)
      in do {
        parent \<leftarrow> uniteConstraints constraints (uf_init numFrontier);
        (components, parent') \<leftarrow> groupComponents [0..<numFrontier] parent [];
        st \<leftarrow> solveComponents constraints frontier remainingBad (length (unknownCells c)) components
                \<lparr>uf_parent = parent', loopProb = probs c, compResults = []\<rparr>;
        let ip = interiorPolyOf numInterior;
            cp = compProdOf (compResults st);
            totalPoly = convolve ip cp
        in Some \<lparr>frontierOf = frontier, interiorOf = interior, resultsOf = compResults st,
                  probsOf = loopProb st, interiorPoly = ip, compProd = cp,
                  totalWays = totalWaysOf remainingBad totalPoly\<rparr>
      })"

subsection \<open>Step 7: frontier cells\<close>

text \<open>The loop condition \<open>k <= cr.size && k <= remainingBad\<close> ends the loop at the first
  \<open>k\<close> that fails it: \<open>takeWhile\<close>.\<close>

definition withoutCompOf :: "ComponentResult list \<Rightarrow> nat \<Rightarrow> real list" where
  "withoutCompOf crs ci =
     foldl (\<lambda>withoutComp j.
              if j = ci \<or> counts_cr (crs ! j) = [] then withoutComp
              else convolve withoutComp (counts_cr (crs ! j)))
       [1] [0..<length crs]"

fun numeratorLoop :: "nat list \<Rightarrow> real list list \<Rightarrow> nat \<Rightarrow> real list \<Rightarrow> int \<Rightarrow> real \<Rightarrow> real option" where
  "numeratorLoop [] bc li totalWithout remainingBad numerator = Some numerator"
| "numeratorLoop (k # ks) bc li totalWithout remainingBad numerator =
     (let rest = remainingBad - int k
      in if rest \<ge> 0 \<and> rest < int (length totalWithout)
         then do {
           row \<leftarrow> vget bc li;
           b \<leftarrow> vget row k;
           numeratorLoop ks bc li totalWithout remainingBad (numerator + b * totalWithout ! nat rest)
         }
         else numeratorLoop ks bc li totalWithout remainingBad numerator)"

fun assignCells :: "nat list \<Rightarrow> ComponentResult \<Rightarrow> nat list \<Rightarrow> real list \<Rightarrow> int \<Rightarrow> real
                      \<Rightarrow> real list \<Rightarrow> real list option" where
  "assignCells [] cr frontier totalWithout remainingBad tw bp = Some bp"
| "assignCells (li # rest) cr frontier totalWithout remainingBad tw bp =
     do {
       frontierIdx \<leftarrow> vget (globalIndices cr) li;
       globalIdx \<leftarrow> vget frontier frontierIdx;
       numerator \<leftarrow> numeratorLoop (takeWhile (\<lambda>k. int k \<le> remainingBad) [0..<size_cr cr + 1])
                      (badCounts cr) li totalWithout remainingBad 0;
       bp' \<leftarrow> vset bp globalIdx (numerator / tw);
       assignCells rest cr frontier totalWithout remainingBad tw bp'
     }"

fun frontierProbs :: "nat list \<Rightarrow> ComponentResult list \<Rightarrow> nat list \<Rightarrow> real list \<Rightarrow> int \<Rightarrow> real
                        \<Rightarrow> real list \<Rightarrow> real list option" where
  "frontierProbs [] crs frontier ip remainingBad tw bp = Some bp"
| "frontierProbs (ci # rest) crs frontier ip remainingBad tw bp =
     (let cr = crs ! ci
      in if counts_cr cr = [] then frontierProbs rest crs frontier ip remainingBad tw bp
         else do {
           bp' \<leftarrow> assignCells [0..<size_cr cr] cr frontier (convolve (withoutCompOf crs ci) ip)
                    remainingBad tw bp;
           frontierProbs rest crs frontier ip remainingBad tw bp'
         })"

subsection \<open>Step 8: interior cells, clamping, and \<open>solve\<close>\<close>

definition interiorNumeratorOf :: "nat \<Rightarrow> int \<Rightarrow> real list \<Rightarrow> real" where
  "interiorNumeratorOf numInterior remainingBad cp =
     foldl (\<lambda>interiorNumerator m.
              (let rest = remainingBad - int m
               in if rest \<ge> 0 \<and> rest < int (length cp)
                  then interiorNumerator + binomial (int numInterior - 1) (int m - 1) * cp ! nat rest
                  else interiorNumerator))
       0 (takeWhile (\<lambda>m. int m \<le> remainingBad) [1..<numInterior + 1])"

definition clampCell :: "real list \<Rightarrow> nat \<Rightarrow> real list" where
  "clampCell bp i =
     (let bp1 = (if bp ! i < 0 then bp[i := 0] else bp)
      in if bp1 ! i > 1 then bp1[i := 1] else bp1)"

definition clampProbs :: "real list \<Rightarrow> real list" where
  "clampProbs bp = foldl clampCell bp [0..<TOTAL_CELLS]"

definition finish :: "Classification \<Rightarrow> int \<Rightarrow> Combined \<Rightarrow> real list option" where
  "finish c remainingBad cb =
     (if totalWays cb \<le> 0
      then Some (assignAll (unknownCells c)
                   (real_of_int remainingBad / real_of_int (int (length (unknownCells c)))) (probsOf cb))
      else do {
        bp \<leftarrow> frontierProbs [0..<length (resultsOf cb)] (resultsOf cb) (frontierOf cb) (interiorPoly cb)
                remainingBad (totalWays cb) (probsOf cb);
        let numInterior = length (interiorOf cb);
            bp' = (if numInterior > 0
                   then assignAll (interiorOf cb)
                          (interiorNumeratorOf numInterior remainingBad (compProd cb) / totalWays cb) bp
                   else bp)
        in Some (clampProbs bp')
      })"

definition remainingBadOf :: "Classification \<Rightarrow> int" where
  "remainingBadOf c = int TOTAL_BAD - int (knownBad c)"

definition solve :: "ThrillDiggerSolver \<Rightarrow> ThrillDiggerSolver option" where
  "solve s =
     (let c = classify (grid s) (badProb s);
          remainingBad = remainingBadOf c
      in if unknownCells c = [] then Some (s\<lparr>badProb := probs c\<rparr>)
         else if remainingBad \<le> 0 then Some (s\<lparr>badProb := assignAll (unknownCells c) 0 (probs c)\<rparr>)
         else if constraintCells c = []
         then Some (s\<lparr>badProb := assignAll (unknownCells c)
                       (real_of_int remainingBad / real (length (unknownCells c))) (probs c)\<rparr>)
         else do {
           cb \<leftarrow> combine (grid s) c remainingBad;
           bp \<leftarrow> finish c remainingBad cb;
           Some (s\<lparr>badProb := bp\<rparr>)
         })"

section \<open>Union-find: \<open>find\<close> and \<open>unite\<close> return on a forest\<close>

definition uf_rel :: "nat list \<Rightarrow> (nat \<times> nat) set" where
  "uf_rel parent = {(parent ! i, i) | i. i < length parent \<and> parent ! i \<noteq> i}"

definition uf_inv :: "nat list \<Rightarrow> bool" where
  "uf_inv parent = ((\<forall>i < length parent. parent ! i < length parent) \<and> wf (uf_rel parent))"

lemma uf_inv_init: "uf_inv (uf_init n)"
proof -
  have "uf_rel (uf_init n) = {}" by (auto simp: uf_rel_def uf_init_def)
  then show ?thesis by (simp add: uf_inv_def uf_init_def)
qed

lemma uf_rel_update:
  assumes "x < length p"
  shows "uf_rel (p[x := r]) \<subseteq> uf_rel p \<union> {(r, x)}"
proof
  fix e assume "e \<in> uf_rel (p[x := r])"
  then obtain i where i: "e = (p[x := r] ! i, i)" "i < length p" "p[x := r] ! i \<noteq> i"
    by (auto simp: uf_rel_def)
  show "e \<in> uf_rel p \<union> {(r, x)}"
  proof (cases "i = x")
    case True
    then show ?thesis using i assms by simp
  next
    case False
    then show ?thesis using i by (auto simp: uf_rel_def)
  qed
qed

lemma uf_find_some:
  assumes inv: "uf_inv parent" and x: "x < length parent"
  shows "\<exists>r p'. uf_find parent x = Some (r, p') \<and> length p' = length parent
           \<and> (\<forall>i < length parent. p' ! i < length parent)
           \<and> uf_rel p' \<subseteq> (uf_rel parent)\<^sup>+ \<and> r < length parent \<and> p' ! r = r
           \<and> (r, x) \<in> (uf_rel parent)\<^sup>*"
proof -
  have wfr: "wf (uf_rel parent)" and bnd: "\<forall>i < length parent. parent ! i < length parent"
    using inv by (auto simp: uf_inv_def)
  show ?thesis
    using x
  proof (induction x rule: wf_induct_rule [OF wfr])
    case (1 x)
    show ?case
    proof (cases "parent ! x = x")
      case True
      then have "uf_find parent x = Some (x, parent)"
        using "1.prems" by (subst uf_find.simps) simp
      then show ?thesis using True "1.prems" bnd by auto
    next
      case False
      let ?y = "parent ! x"
      have yx: "(?y, x) \<in> uf_rel parent" using False "1.prems" by (auto simp: uf_rel_def)
      have yl: "?y < length parent" using bnd "1.prems" by simp
      from "1.IH" [OF yx yl] obtain r p' where
        f: "uf_find parent ?y = Some (r, p')" and l: "length p' = length parent"
        and b: "\<forall>i < length parent. p' ! i < length parent"
        and s: "uf_rel p' \<subseteq> (uf_rel parent)\<^sup>+" and r: "r < length parent" and rr: "p' ! r = r"
        and path: "(r, ?y) \<in> (uf_rel parent)\<^sup>*"
        by blast
      let ?p = "p'[x := r]"
      have run: "uf_find parent x = Some (r, ?p)"
        using False "1.prems" f l by (subst uf_find.simps) (simp add: vset_def)
      have rx: "(r, x) \<in> (uf_rel parent)\<^sup>+" using path yx by (rule rtrancl_into_trancl1)
      have "uf_rel ?p \<subseteq> uf_rel p' \<union> {(r, x)}"
        using uf_rel_update [of x p' r] "1.prems" l by simp
      then have s': "uf_rel ?p \<subseteq> (uf_rel parent)\<^sup>+" using s rx by auto
      have b': "\<forall>i < length parent. ?p ! i < length parent"
        using b r l "1.prems" by (auto simp: nth_list_update)
      have rr': "?p ! r = r" using rr l "1.prems" by (auto simp: nth_list_update)
      show ?thesis
        using run l b' s' r rr' rx by (intro exI [of _ r] exI [of _ ?p]) auto
    qed
  qed
qed

lemma uf_find_inv:
  assumes inv: "uf_inv parent" and x: "x < length parent"
  shows "\<exists>r p'. uf_find parent x = Some (r, p') \<and> length p' = length parent \<and> uf_inv p'
           \<and> r < length parent \<and> p' ! r = r"
proof -
  from uf_find_some [OF inv x] obtain r p' where
    f: "uf_find parent x = Some (r, p')" and l: "length p' = length parent"
    and b: "\<forall>i < length parent. p' ! i < length parent"
    and s: "uf_rel p' \<subseteq> (uf_rel parent)\<^sup>+" and r: "r < length parent" and rr: "p' ! r = r"
    by blast
  have "wf ((uf_rel parent)\<^sup>+)" using inv by (simp add: uf_inv_def wf_trancl)
  then have "wf (uf_rel p')" using s by (rule wf_subset)
  then have "uf_inv p'" using b l by (simp add: uf_inv_def)
  with f l r rr show ?thesis by blast
qed

lemma uf_unite_inv:
  assumes inv: "uf_inv parent" and a: "a < length parent" and b: "b < length parent"
  shows "\<exists>p'. uf_unite parent a b = Some p' \<and> length p' = length parent \<and> uf_inv p'"
proof -
  from uf_find_inv [OF inv a] obtain a' p1 where
    f1: "uf_find parent a = Some (a', p1)" and l1: "length p1 = length parent" and i1: "uf_inv p1"
    and a': "a' < length parent" by blast
  have "b < length p1" using b l1 by simp
  from uf_find_inv [OF i1 this] l1 obtain b' p2 where
    f2: "uf_find p1 b = Some (b', p2)" and l2: "length p2 = length parent" and i2: "uf_inv p2"
    and b': "b' < length parent" and root: "p2 ! b' = b'" by auto
  show ?thesis
  proof (cases "a' = b'")
    case True
    then show ?thesis using f1 f2 l2 i2 by (simp add: uf_unite_def)
  next
    case False
    let ?p = "p2[a' := b']"
    have run: "uf_unite parent a b = Some ?p"
      using False f1 f2 a' l2 by (simp add: uf_unite_def vset_def)
    have sub: "uf_rel ?p \<subseteq> insert (b', a') (uf_rel p2)"
      using uf_rel_update [of a' p2 b'] a' l2 by auto
    have nob: "(z, b') \<notin> uf_rel p2" for z using root by (auto simp: uf_rel_def)
    have "(a', b') \<notin> (uf_rel p2)\<^sup>*"
    proof
      assume "(a', b') \<in> (uf_rel p2)\<^sup>*"
      then show False using False nob by (cases rule: rtranclE) auto
    qed
    moreover have "wf (uf_rel p2)" using i2 by (simp add: uf_inv_def)
    ultimately have "wf (insert (b', a') (uf_rel p2))" by (simp add: wf_insert)
    then have "wf (uf_rel ?p)" using sub by (rule wf_subset)
    moreover have "\<forall>i < length ?p. ?p ! i < length ?p"
      using i2 a' b' l2 by (auto simp: uf_inv_def nth_list_update)
    ultimately have "uf_inv ?p" by (simp add: uf_inv_def)
    with run l2 show ?thesis by simp
  qed
qed

section \<open>Classification and the trivial cases\<close>

lemma TOTAL_CELLS_40: "TOTAL_CELLS = 40"
  by (simp add: TOTAL_CELLS_def ROWS_def COLS_def)

lemma isRevealed_cases:
  "\<not> isRevealedBad c \<and> \<not> isRevealedGood c \<longleftrightarrow> c = Undug"
  by (cases c) (simp_all add: isRevealedBad_def)

lemma bad_not_good: "isRevealedBad c \<Longrightarrow> \<not> isRevealedGood c"
  by (cases c) (simp_all add: isRevealedBad_def)

lemma classify_fold:
  "unknownCells (foldl (classifyCell g) c idxs) = unknownCells c @ filter (\<lambda>i. g ! i = Undug) idxs
   \<and> constraintCells (foldl (classifyCell g) c idxs)
       = constraintCells c @ filter (\<lambda>i. isRevealedGood (g ! i)) idxs
   \<and> knownBad (foldl (classifyCell g) c idxs) = knownBad c + length (filter (\<lambda>i. isRevealedBad (g ! i)) idxs)"
proof (induction idxs arbitrary: c)
  case Nil
  then show ?case by simp
next
  case (Cons i idxs)
  show ?case
    using Cons.IH [of "classifyCell g c i"] isRevealed_cases [of "g ! i"] bad_not_good [of "g ! i"]
    by (auto simp: classifyCell_def)
qed

lemma classify_lists:
  "unknownCells (classify g bp) = filter (\<lambda>i. g ! i = Undug) [0..<TOTAL_CELLS]"
  "constraintCells (classify g bp) = filter (\<lambda>i. isRevealedGood (g ! i)) [0..<TOTAL_CELLS]"
  "knownBad (classify g bp) = length (filter (\<lambda>i. isRevealedBad (g ! i)) [0..<TOTAL_CELLS])"
  using classify_fold [of g "\<lparr>probs = bp, unknownCells = [], constraintCells = [], knownBad = 0\<rparr>" "[0..<TOTAL_CELLS]"]
  by (simp_all add: classify_def)

definition marked :: "CellContent list \<Rightarrow> real list \<Rightarrow> nat set \<Rightarrow> nat \<Rightarrow> real" where
  "marked g bp S j = (if j \<in> S \<and> isRevealedBad (g ! j) then 1
                      else if j \<in> S \<and> isRevealedGood (g ! j) then 0 else bp ! j)"

lemma classifyCell_probs:
  "length (probs (classifyCell g c i)) = length (probs c)"
  "j < length (probs c) \<Longrightarrow> probs (classifyCell g c i) ! j = marked g (probs c) {i} j"
  using bad_not_good [of "g ! i"]
  by (auto simp: classifyCell_def marked_def nth_list_update)

lemma classify_probs_fold:
  "length (probs (foldl (classifyCell g) c idxs)) = length (probs c)
   \<and> (\<forall>j < length (probs c). probs (foldl (classifyCell g) c idxs) ! j = marked g (probs c) (set idxs) j)"
proof (induction idxs arbitrary: c)
  case Nil
  then show ?case by (simp add: marked_def)
next
  case (Cons i idxs)
  let ?c1 = "classifyCell g c i"
  have l: "length (probs ?c1) = length (probs c)" by (rule classifyCell_probs)
  have "marked g (probs ?c1) (set idxs) j = marked g (probs c) (set (i # idxs)) j"
    if "j < length (probs c)" for j
    using classifyCell_probs(2) [OF that, of g i] by (auto simp: marked_def)
  then show ?case using Cons.IH [of ?c1] l by simp
qed

lemma classify_probs:
  "length (probs (classify g bp)) = length bp"
  "j < length bp \<Longrightarrow> j < TOTAL_CELLS \<Longrightarrow>
     probs (classify g bp) ! j
       = (if isRevealedBad (g ! j) then 1 else if isRevealedGood (g ! j) then 0 else bp ! j)"
  using classify_probs_fold [of g "\<lparr>probs = bp, unknownCells = [], constraintCells = [], knownBad = 0\<rparr>" "[0..<TOTAL_CELLS]"]
  by (simp_all add: classify_def marked_def)

lemma assignAll_nth:
  "length (assignAll idxs p bp) = length bp
   \<and> (\<forall>j < length bp. assignAll idxs p bp ! j = (if j \<in> set idxs then p else bp ! j))"
  unfolding assignAll_def
  by (induction idxs arbitrary: bp) (auto simp: nth_list_update)

lemma knownBad_count:
  assumes "length g = TOTAL_CELLS"
  shows "knownBad (classify g bp) = length (filter isRevealedBad g)"
proof -
  have "filter isRevealedBad g = filter isRevealedBad (map ((!) g) [0..<length g])"
    by (simp add: map_nth)
  also have "\<dots> = map ((!) g) (filter (isRevealedBad \<circ> (!) g) [0..<length g])"
    by (simp add: filter_map)
  finally have "length (filter isRevealedBad g) = length (filter (\<lambda>i. isRevealedBad (g ! i)) [0..<length g])"
    by (simp add: comp_def)
  then show ?thesis using assms by (simp add: classify_lists)
qed

text \<open>
  Claim C7. In every state in which all \<open>TOTAL_BAD = 16\<close> bad items are revealed
  (\<open>remainingBad = 0\<close>), \<open>solve\<close> returns and every cell still hidden has probability
  exactly 0.
\<close>

theorem solve_all_bad_found:
  assumes wf: "wf_solver s"
    and all: "length (filter isRevealedBad (grid s)) = TOTAL_BAD"
  shows "\<exists>s'. solve s = Some s' \<and> grid s' = grid s \<and> wf_solver s'
           \<and> (\<forall>i < TOTAL_CELLS. grid s ! i = Undug \<longrightarrow> badProb s' ! i = 0)"
proof -
  let ?c = "classify (grid s) (badProb s)"
  have len: "length (grid s) = TOTAL_CELLS" "length (badProb s) = TOTAL_CELLS"
    using wf by (simp_all add: wf_solver_def)
  have R: "remainingBadOf ?c = 0"
    using knownBad_count [OF len(1)] all by (simp add: remainingBadOf_def)
  have lp: "length (probs ?c) = TOTAL_CELLS" using classify_probs(1) len by simp
  have un: "set (unknownCells ?c) = {i. i < TOTAL_CELLS \<and> grid s ! i = Undug}"
    by (auto simp: classify_lists)
  show ?thesis
  proof (cases "unknownCells ?c = []")
    case True
    then have "solve s = Some (s\<lparr>badProb := probs ?c\<rparr>)" by (simp add: solve_def Let_def)
    moreover have "\<forall>i < TOTAL_CELLS. grid s ! i \<noteq> Undug" using un True by auto
    ultimately show ?thesis using lp len by (simp add: wf_solver_def)
  next
    case False
    let ?bp = "assignAll (unknownCells ?c) 0 (probs ?c)"
    have run: "solve s = Some (s\<lparr>badProb := ?bp\<rparr>)" using False R by (simp add: solve_def Let_def)
    have "length ?bp = TOTAL_CELLS" using assignAll_nth [of "unknownCells ?c" 0 "probs ?c"] lp by simp
    moreover have "?bp ! i = 0" if "i < TOTAL_CELLS" "grid s ! i = Undug" for i
      using assignAll_nth [of "unknownCells ?c" 0 "probs ?c"] lp un that by auto
    ultimately show ?thesis using run len by (simp add: wf_solver_def)
  qed
qed

theorem solve_all_bad_found_witness:
  "wf_solver \<lparr>grid = replicate 16 Bomb @ replicate 24 Undug, badProb = replicate 40 (2 / 5)\<rparr>
   \<and> length (filter isRevealedBad (replicate 16 Bomb @ replicate 24 Undug)) = TOTAL_BAD
   \<and> (\<exists>s'. solve \<lparr>grid = replicate 16 Bomb @ replicate 24 Undug, badProb = replicate 40 (2 / 5)\<rparr> = Some s'
         \<and> badProb s' ! 20 = 0)"
proof -
  let ?s = "\<lparr>grid = replicate 16 Bomb @ replicate 24 Undug, badProb = replicate 40 (2 / 5)\<rparr>"
  have wf: "wf_solver ?s" by (simp add: wf_solver_def TOTAL_CELLS_40)
  have all: "length (filter isRevealedBad (grid ?s)) = TOTAL_BAD"
    by (simp add: isRevealedBad_def TOTAL_BAD_def)
  have u: "grid ?s ! 20 = Undug" by (simp add: nth_append)
  from solve_all_bad_found [OF wf all] u obtain s' where
    "solve ?s = Some s'" "badProb s' ! 20 = 0"
    by (auto simp: TOTAL_CELLS_40)
  with wf all show ?thesis by auto
qed

text \<open>A board with one hidden cell, cell 0, and green rupees everywhere else.\<close>

definition crowdedBoard :: ThrillDiggerSolver where
  "crowdedBoard = \<lparr>grid = Undug # replicate 39 Green, badProb = replicate 40 (2 / 5)\<rparr>"

text \<open>
  Claim C1 (a defect of the code). The clamp into \<open>[0,1]\<close> is the last loop of
  \<open>solve\<close>; the contradiction fallback returns before it. On the board whose cell 0 is
  hidden and whose other 39 cells are green rupees, no valid world exists, the fallback
  assigns \<open>remainingBad / |unknownCells| = 16 / 1\<close>, and \<open>solve\<close> returns with
  \<open>badProb[0] = 16\<close>.
\<close>

theorem solve_fallback_unclamped:
  "map_option (\<lambda>s. badProb s ! 0) (solve crowdedBoard) = Some 16"
  by code_simp

section \<open>Constraint extraction\<close>

lemma getNeighbors_bound:
  assumes "idx < TOTAL_CELLS" "n \<in> set (getNeighbors idx)"
  shows "n < TOTAL_CELLS"
proof -
  from assms(1) neighbors_ok_all have "neighbors_ok idx" by (simp add: list_all_iff)
  then have "adjacent idx n" using assms(2) by (simp add: neighbors_ok_def list_all_iff)
  then show ?thesis by (simp add: adjacent_def)
qed

lemma frontier_inner:
  "set (foldl (\<lambda>fs n. if n \<in> set unknown then List.insert n fs else fs) fs ns)
     = set fs \<union> {n \<in> set ns. n \<in> set unknown}
   \<and> (distinct fs \<longrightarrow> distinct (foldl (\<lambda>fs n. if n \<in> set unknown then List.insert n fs else fs) fs ns))"
  by (induction ns arbitrary: fs) auto

lemma frontier_outer:
  "set (foldl (\<lambda>fs ci. foldl (\<lambda>fs n. if n \<in> set unknown then List.insert n fs else fs) fs (getNeighbors ci)) fs clues)
     = set fs \<union> {n \<in> set unknown. \<exists>ci \<in> set clues. n \<in> set (getNeighbors ci)}
   \<and> (distinct fs \<longrightarrow> distinct (foldl (\<lambda>fs ci. foldl (\<lambda>fs n. if n \<in> set unknown then List.insert n fs else fs) fs (getNeighbors ci)) fs clues))"
proof (induction clues arbitrary: fs)
  case Nil
  then show ?case by simp
next
  case (Cons ci clues)
  let ?fs1 = "foldl (\<lambda>fs n. if n \<in> set unknown then List.insert n fs else fs) fs (getNeighbors ci)"
  from Cons.IH [of ?fs1] frontier_inner [of unknown fs "getNeighbors ci"]
  show ?case by auto
qed

lemma buildFrontierSet_set:
  "set (buildFrontierSet unknown clues) = {n \<in> set unknown. \<exists>ci \<in> set clues. n \<in> set (getNeighbors ci)}"
  "distinct (buildFrontierSet unknown clues)"
  using frontier_outer [of unknown "[]" clues] by (simp_all add: buildFrontierSet_def)

lemma lower_bound_index:
  assumes "sorted xs" "n \<in> set xs"
  shows "lower_bound xs n < length xs \<and> xs ! lower_bound xs n = n"
proof -
  let ?tw = "takeWhile (\<lambda>x. x < n) xs"
  let ?k = "length ?tw"
  have "?tw \<noteq> xs" using assms(2) by (auto simp: takeWhile_eq_all_conv)
  moreover have "?k \<le> length xs" by (rule length_takeWhile_le)
  ultimately have k: "?k < length xs"
    by (metis le_neq_implies_less takeWhile_eq_take take_all_iff order_refl)
  then have ge: "n \<le> xs ! ?k" using nth_length_takeWhile [of "\<lambda>x. x < n" xs] by simp
  from assms(2) obtain j where j: "j < length xs" "xs ! j = n" by (auto simp: in_set_conv_nth)
  have "\<not> j < ?k"
  proof
    assume a: "j < ?k"
    then have "?tw ! j = xs ! j" by (rule takeWhile_nth)
    moreover have "?tw ! j \<in> set ?tw" using a by simp
    ultimately have "xs ! j < n" using set_takeWhileD by fastforce
    then show False using j by simp
  qed
  then have kj: "?k \<le> j" by simp
  have "xs ! ?k \<le> xs ! j" by (rule sorted_nth_mono [OF assms(1) kj j(1)])
  then show ?thesis using ge j k by (simp add: lower_bound_def)
qed

lemma scan_fold:
  "foldl (\<lambda>(knownBadN, fnbrs) n.
              if isRevealedBad (g ! n) then (knownBadN + 1, fnbrs)
              else if n \<in> set frontierSet then (knownBadN, fnbrs @ [lower_bound frontier n])
              else (knownBadN, fnbrs)) (kb, fn) nbrs
   = (kb + length (filter (\<lambda>n. isRevealedBad (g ! n)) nbrs),
      fn @ map (lower_bound frontier) (filter (\<lambda>n. \<not> isRevealedBad (g ! n) \<and> n \<in> set frontierSet) nbrs))"
  by (induction nbrs arbitrary: kb fn) auto

lemma scanNeighbors_eq:
  "scanNeighbors g frontierSet frontier nbrs
   = (length (filter (\<lambda>n. isRevealedBad (g ! n)) nbrs),
      map (lower_bound frontier) (filter (\<lambda>n. \<not> isRevealedBad (g ! n) \<and> n \<in> set frontierSet) nbrs))"
  using scan_fold [of g frontierSet frontier 0 "[]" nbrs] by (simp add: scanNeighbors_def)

text \<open>
  The hidden neighbours of a clue, the number of its neighbours revealed bad, and the
  frontier set that \<open>solve\<close> builds for a grid (the lists of unknown and clue cells
  do not depend on \<open>badProb\<close>, see \<open>classify_lists_any\<close>).
\<close>

definition hiddenNeighbors :: "CellContent list \<Rightarrow> nat \<Rightarrow> nat list" where
  "hiddenNeighbors g ci = filter (\<lambda>n. g ! n = Undug) (getNeighbors ci)"

definition knownBadNeighbors :: "CellContent list \<Rightarrow> nat \<Rightarrow> nat" where
  "knownBadNeighbors g ci = length (filter (\<lambda>n. isRevealedBad (g ! n)) (getNeighbors ci))"

definition frontierSetOfGrid :: "CellContent list \<Rightarrow> nat list" where
  "frontierSetOfGrid g =
     buildFrontierSet (unknownCells (classify g [])) (constraintCells (classify g []))"

lemma classify_lists_any:
  "unknownCells (classify g bp) = unknownCells (classify g [])"
  "constraintCells (classify g bp) = constraintCells (classify g [])"
  "knownBad (classify g bp) = knownBad (classify g [])"
  by (simp_all add: classify_lists)

lemma frontier_filter:
  assumes ci: "ci < TOTAL_CELLS" "isRevealedGood (g ! ci)"
  shows "filter (\<lambda>n. \<not> isRevealedBad (g ! n) \<and> n \<in> set (frontierSetOfGrid g)) (getNeighbors ci)
         = hiddenNeighbors g ci"
  unfolding hiddenNeighbors_def
proof (rule filter_cong [OF refl])
  fix n assume n: "n \<in> set (getNeighbors ci)"
  then have nl: "n < TOTAL_CELLS" using getNeighbors_bound ci(1) by blast
  have cl: "ci \<in> set (constraintCells (classify g []))" using ci by (simp add: classify_lists)
  have "n \<in> set (frontierSetOfGrid g) \<longleftrightarrow> g ! n = Undug"
    using n nl cl by (auto simp: frontierSetOfGrid_def buildFrontierSet_set classify_lists)
  moreover have "g ! n = Undug \<Longrightarrow> \<not> isRevealedBad (g ! n)" by (simp add: isRevealedBad_def)
  ultimately show "(\<not> isRevealedBad (g ! n) \<and> n \<in> set (frontierSetOfGrid g)) = (g ! n = Undug)"
    by blast
qed

text \<open>Two boards: a blue rupee next to a bomb, and a green rupee with no hidden neighbour.\<close>

definition clueBoard :: "CellContent list" where
  "clueBoard = Blue # Bomb # replicate 38 Undug"

definition resolvedBoard :: "CellContent list" where
  "resolvedBoard = [Green, Bomb] @ replicate 6 Undug @ [Bomb, Bomb] @ replicate 30 Undug"

text \<open>
  Claim C6. For every revealed clue cell with rank range \<open>[min, max]\<close> and
  \<open>knownBadN\<close> neighbours revealed bad, \<open>solve\<close> emits the constraint over its hidden
  neighbours (as positions in the sorted frontier, each of which holds that neighbour)
  with bounds \<open>min (max 0 (min - knownBadN)) h\<close> and \<open>min (max 0 (max - knownBadN)) h\<close>,
  \<open>h\<close> the number of hidden neighbours; a clue with no hidden neighbour emits none.
\<close>

theorem clueConstraint_range:
  assumes ci: "ci < TOTAL_CELLS" and clue: "isRevealedGood (g ! ci)"
  shows "clueConstraint g (frontierSetOfGrid g) (sort (frontierSetOfGrid g)) ci
         = (if hiddenNeighbors g ci = [] then []
            else [\<lparr>frontierLocalIdx = map (lower_bound (sort (frontierSetOfGrid g))) (hiddenNeighbors g ci),
                   minBad = min (max 0 (fst (badNeighborRange (g ! ci)) - int (knownBadNeighbors g ci)))
                              (int (length (hiddenNeighbors g ci))),
                   maxBad = min (max 0 (snd (badNeighborRange (g ! ci)) - int (knownBadNeighbors g ci)))
                              (int (length (hiddenNeighbors g ci)))\<rparr>])
         \<and> (\<forall>n \<in> set (hiddenNeighbors g ci).
               lower_bound (sort (frontierSetOfGrid g)) n < length (sort (frontierSetOfGrid g))
               \<and> sort (frontierSetOfGrid g) ! lower_bound (sort (frontierSetOfGrid g)) n = n)"
proof -
  let ?fs = "frontierSetOfGrid g" and ?h = "hiddenNeighbors g ci"
  have sc: "scanNeighbors g ?fs (sort ?fs) (getNeighbors ci)
            = (knownBadNeighbors g ci, map (lower_bound (sort ?fs)) ?h)"
    by (simp add: scanNeighbors_eq frontier_filter [OF ci clue] knownBadNeighbors_def)
  have eq: "clueConstraint g ?fs (sort ?fs) ci
         = (if ?h = [] then []
            else [\<lparr>frontierLocalIdx = map (lower_bound (sort ?fs)) ?h,
                   minBad = min (max 0 (fst (badNeighborRange (g ! ci)) - int (knownBadNeighbors g ci)))
                              (int (length ?h)),
                   maxBad = min (max 0 (snd (badNeighborRange (g ! ci)) - int (knownBadNeighbors g ci)))
                              (int (length ?h))\<rparr>])"
    by (simp add: clueConstraint_def sc Let_def split_beta max_def)
  have idx: "lower_bound (sort ?fs) n < length (sort ?fs) \<and> sort ?fs ! lower_bound (sort ?fs) n = n"
    if "n \<in> set ?h" for n
  proof -
    have "n \<in> set (filter (\<lambda>n. \<not> isRevealedBad (g ! n) \<and> n \<in> set ?fs) (getNeighbors ci))"
      using that frontier_filter [OF ci clue] by simp
    then have "n \<in> set (sort ?fs)" by simp
    then show ?thesis by (intro lower_bound_index) simp_all
  qed
  show ?thesis using eq idx by blast
qed

theorem clueConstraint_range_witness:
  "(0::nat) < TOTAL_CELLS \<and> isRevealedGood (clueBoard ! 0) \<and> isRevealedGood (resolvedBoard ! 0)
   \<and> clueConstraint clueBoard (frontierSetOfGrid clueBoard) (sort (frontierSetOfGrid clueBoard)) 0
       = [\<lparr>frontierLocalIdx = [0, 1], minBad = 0, maxBad = 1\<rparr>]
   \<and> sort (frontierSetOfGrid clueBoard) = [8, 9]
   \<and> clueConstraint resolvedBoard (frontierSetOfGrid resolvedBoard) (sort (frontierSetOfGrid resolvedBoard)) 0 = []"
proof -
  have c: "(0::nat) < TOTAL_CELLS" by (simp add: TOTAL_CELLS_40)
  have g1: "isRevealedGood (clueBoard ! 0)" and g2: "isRevealedGood (resolvedBoard ! 0)"
    by (simp_all add: clueBoard_def resolvedBoard_def)
  have e1: "hiddenNeighbors clueBoard 0 = [8, 9]" "knownBadNeighbors clueBoard 0 = 1"
    "sort (frontierSetOfGrid clueBoard) = [8, 9]" "badNeighborRange (clueBoard ! 0) = (1, 2)"
    by code_simp+
  have e2: "hiddenNeighbors resolvedBoard 0 = []" by code_simp
  have l: "lower_bound [8, 9] 8 = 0" "lower_bound [8, 9] 9 = 1" by code_simp+
  show ?thesis
    using clueConstraint_range [OF c g1] clueConstraint_range [OF c g2] c g1 g2
    by (simp add: e1 e2 l)
qed

section \<open>The pipeline returns: steps 4 and 5\<close>

lemma uniteWith_inv:
  assumes "uf_inv parent" "f < length parent" "\<forall>x \<in> set xs. x < length parent"
  shows "\<exists>p'. uniteWith f xs parent = Some p' \<and> length p' = length parent \<and> uf_inv p'"
  using assms
proof (induction xs arbitrary: parent)
  case Nil
  then show ?case by simp
next
  case (Cons x xs)
  from uf_unite_inv [OF Cons.prems(1,2), of x] Cons.prems(3) obtain p where
    p: "uf_unite parent f x = Some p" "length p = length parent" "uf_inv p" by auto
  from Cons.IH [of p] p Cons.prems show ?case by auto
qed

lemma uniteConstraints_inv:
  assumes "uf_inv parent" "\<forall>con \<in> set cons. \<forall>fi \<in> set (frontierLocalIdx con). fi < length parent"
  shows "\<exists>p'. uniteConstraints cons parent = Some p' \<and> length p' = length parent \<and> uf_inv p'"
  using assms
proof (induction cons arbitrary: parent)
  case Nil
  then show ?case by simp
next
  case (Cons con cons)
  have "\<exists>p. (case frontierLocalIdx con of [] \<Rightarrow> Some parent | f # xs \<Rightarrow> uniteWith f xs parent) = Some p
          \<and> length p = length parent \<and> uf_inv p"
  proof (cases "frontierLocalIdx con")
    case Nil
    then show ?thesis using Cons.prems by simp
  next
    case (Cons f xs)
    then have "f < length parent" "\<forall>x \<in> set xs. x < length parent" using Cons.prems(2) by auto
    from uniteWith_inv [OF Cons.prems(1) this] Cons show ?thesis by simp
  qed
  then obtain p where p: "(case frontierLocalIdx con of [] \<Rightarrow> Some parent | f # xs \<Rightarrow> uniteWith f xs parent) = Some p"
    "length p = length parent" "uf_inv p" by blast
  from Cons.IH [of p] p Cons.prems(2) show ?case by auto
qed

lemma pushMember_keys:
  "fst ` set (pushMember comps r i) = insert r (fst ` set comps)"
  "distinct (map fst comps) \<Longrightarrow> distinct (map fst (pushMember comps r i))"
proof -
  have m: "map fst (map (\<lambda>(k, ms). if k = r then (k, ms @ [i]) else (k, ms)) comps) = map fst comps"
    by (induction comps) auto
  show "fst ` set (pushMember comps r i) = insert r (fst ` set comps)"
  proof (cases "r \<in> fst ` set comps")
    case True
    have "fst ` set (map (\<lambda>(k, ms). if k = r then (k, ms @ [i]) else (k, ms)) comps) = fst ` set comps"
      using m by (metis set_map)
    then show ?thesis using True by (auto simp: pushMember_def)
  next
    case False
    then show ?thesis by (auto simp: pushMember_def)
  qed
  show "distinct (map fst comps) \<Longrightarrow> distinct (map fst (pushMember comps r i))"
  proof (cases "r \<in> fst ` set comps")
    case True
    then have "map fst (pushMember comps r i) = map fst comps" using m by (simp add: pushMember_def)
    then show "distinct (map fst comps) \<Longrightarrow> distinct (map fst (pushMember comps r i))" by simp
  next
    case False
    then have "map fst (pushMember comps r i) = map fst comps @ [r]" by (simp add: pushMember_def)
    then show "distinct (map fst comps) \<Longrightarrow> distinct (map fst (pushMember comps r i))"
      using False by simp
  qed
qed

lemma pushMember_mset:
  assumes "distinct (map fst comps)"
  shows "mset (concat (map snd (pushMember comps r i))) = mset (concat (map snd comps)) + {#i#}"
proof (cases "r \<in> fst ` set comps")
  case False
  then show ?thesis by (simp add: pushMember_def)
next
  case True
  have "mset (concat (map snd (map (\<lambda>(k, ms). if k = r then (k, ms @ [i]) else (k, ms)) comps)))
        = mset (concat (map snd comps)) + {#i#}"
    using assms True
  proof (induction comps)
    case Nil
    then show ?case by simp
  next
    case (Cons kv comps)
    obtain k ms where kv: "kv = (k, ms)" by (cases kv)
    show ?case
    proof (cases "k = r")
      case True
      then have "r \<notin> fst ` set comps" using Cons.prems(1) kv by auto
      then have "map (\<lambda>(k, ms). if k = r then (k, ms @ [i]) else (k, ms)) comps = comps"
        by (intro map_idI) force
      then show ?thesis using True kv by simp
    next
      case False
      then have "r \<in> fst ` set comps" using Cons.prems(2) kv by auto
      with Cons.IH Cons.prems(1) show ?thesis using False kv by simp
    qed
  qed
  then show ?thesis using True by (simp add: pushMember_def)
qed

lemma groupComponents_inv:
  assumes "uf_inv parent" "\<forall>i \<in> set idxs. i < length parent" "distinct (map fst comps)"
  shows "\<exists>comps' p'. groupComponents idxs parent comps = Some (comps', p')
           \<and> length p' = length parent \<and> uf_inv p' \<and> distinct (map fst comps')
           \<and> mset (concat (map snd comps')) = mset (concat (map snd comps)) + mset idxs"
  using assms
proof (induction idxs arbitrary: parent comps)
  case Nil
  then show ?case by simp
next
  case (Cons i idxs)
  have "i < length parent" using Cons.prems(2) by simp
  from uf_find_inv [OF Cons.prems(1) this] obtain r p where
    f: "uf_find parent i = Some (r, p)" "length p = length parent" "uf_inv p" by blast
  have d: "distinct (map fst (pushMember comps r i))" using Cons.prems(3) by (rule pushMember_keys(2))
  from Cons.IH [OF f(3) _ d] Cons.prems(2) f(2) obtain comps' p' where
    g: "groupComponents idxs p (pushMember comps r i) = Some (comps', p')"
    "length p' = length p" "uf_inv p'" "distinct (map fst comps')"
    "mset (concat (map snd comps')) = mset (concat (map snd (pushMember comps r i))) + mset idxs"
    by auto
  show ?case
    using f g pushMember_mset [OF Cons.prems(3), of r i] by simp
qed

lemma g2l_fold:
  "foldl (\<lambda>m i. m(members ! i \<mapsto> i)) m idxs x = Some v \<Longrightarrow> v \<in> set idxs \<or> m x = Some v"
proof (induction idxs arbitrary: m)
  case Nil
  then show ?case by simp
next
  case (Cons i idxs)
  have "foldl (\<lambda>m i. m(members ! i \<mapsto> i)) (m(members ! i \<mapsto> i)) idxs x = Some v"
    using Cons.prems by (simp only: foldl.simps)
  from Cons.IH [OF this] show ?case
    by (auto split: if_splits)
qed

lemma buildGlobalToLocal_bound:
  "buildGlobalToLocal members x = Some v \<Longrightarrow> v < length members"
  using g2l_fold [of members Map.empty "[0..<length members]" x v]
  by (simp add: buildGlobalToLocal_def)

lemma isRelevant_inv:
  assumes "uf_inv parent" "\<forall>fi \<in> set fis. fi < length parent"
  shows "\<exists>b p'. isRelevant fis rootId parent = Some (b, p') \<and> length p' = length parent \<and> uf_inv p'"
  using assms
proof (induction fis arbitrary: parent)
  case Nil
  then show ?case by auto
next
  case (Cons fi fis)
  have "fi < length parent" using Cons.prems(2) by simp
  from uf_find_inv [OF Cons.prems(1) this] obtain r p where
    f: "uf_find parent fi = Some (r, p)" "length p = length parent" "uf_inv p" by blast
  show ?case
  proof (cases "r = rootId")
    case True
    then show ?thesis using f by auto
  next
    case False
    from Cons.IH [OF f(3)] Cons.prems(2) f(2) obtain b p' where
      "isRelevant fis rootId p = Some (b, p')" "length p' = length p" "uf_inv p'" by auto
    then show ?thesis using f False by simp
  qed
qed

lemma map_filter_bound:
  assumes "\<forall>x v. g2l x = Some v \<longrightarrow> v < n"
  shows "\<forall>li \<in> set (List.map_filter g2l xs). li < n"
  using assms by (auto simp: List.map_filter_def)

lemma filterConstraints_inv:
  assumes "uf_inv parent"
    and "\<forall>con \<in> set cons. \<forall>fi \<in> set (frontierLocalIdx con). fi < length parent"
    and "\<forall>x v. g2l x = Some v \<longrightarrow> v < n"
    and "\<forall>lc \<in> set acc. \<forall>li \<in> set (localIdx lc). li < n"
  shows "\<exists>lcs p'. filterConstraints cons rootId g2l parent acc = Some (lcs, p')
           \<and> length p' = length parent \<and> uf_inv p'
           \<and> (\<forall>lc \<in> set lcs. \<forall>li \<in> set (localIdx lc). li < n)"
  using assms
proof (induction cons arbitrary: parent acc)
  case Nil
  then show ?case by simp
next
  case (Cons con cons)
  have "\<forall>fi \<in> set (frontierLocalIdx con). fi < length parent" using Cons.prems(2) by simp
  from isRelevant_inv [OF Cons.prems(1) this, of rootId] obtain b p where
    r: "isRelevant (frontierLocalIdx con) rootId parent = Some (b, p)" "length p = length parent" "uf_inv p"
    by blast
  let ?lc = "\<lparr>localIdx = List.map_filter g2l (frontierLocalIdx con), lminBad = minBad con, lmaxBad = maxBad con\<rparr>"
  let ?acc = "if b then acc @ [?lc] else acc"
  have a: "\<forall>lc \<in> set ?acc. \<forall>li \<in> set (localIdx lc). li < n"
    using Cons.prems(4) map_filter_bound [OF Cons.prems(3), of "frontierLocalIdx con"] by auto
  have c: "\<forall>con \<in> set cons. \<forall>fi \<in> set (frontierLocalIdx con). fi < length p"
    using Cons.prems(2) r(2) by simp
  from Cons.IH [OF r(3) c Cons.prems(3) a] obtain lcs p' where
    "filterConstraints cons rootId g2l p ?acc = Some (lcs, p')" "length p' = length p" "uf_inv p'"
    "\<forall>lc \<in> set lcs. \<forall>li \<in> set (localIdx lc). li < n" by blast
  then show ?case using r by (cases b) auto
qed

lemma pushConstraint_inv:
  assumes "\<forall>li \<in> set lis. li < length cc"
  shows "\<exists>cc'. pushConstraint ci lis cc = Some cc' \<and> length cc' = length cc
           \<and> (\<forall>c < length cc. set (cc' ! c) = set (cc ! c) \<union> (if c \<in> set lis then {ci} else {}))"
  using assms
proof (induction lis arbitrary: cc)
  case Nil
  then show ?case by simp
next
  case (Cons li lis)
  let ?cc1 = "cc[li := cc ! li @ [ci]]"
  have li: "li < length cc" using Cons.prems by simp
  from Cons.IH [of ?cc1] Cons.prems obtain cc' where
    r: "pushConstraint ci lis ?cc1 = Some cc'" "length cc' = length cc"
    "\<forall>c < length cc. set (cc' ! c) = set (?cc1 ! c) \<union> (if c \<in> set lis then {ci} else {})"
    by auto
  have "set (cc' ! c) = set (cc ! c) \<union> (if c \<in> set (li # lis) then {ci} else {})" if "c < length cc" for c
    using r(3) that li by (cases "c = li") auto
  then show ?case using r li by (simp add: vget_def vset_def)
qed

lemma buildCellConstraints_inv:
  assumes "\<forall>ci \<in> set cix. ci < length lcs"
    and "\<forall>lc \<in> set lcs. \<forall>li \<in> set (localIdx lc). li < length cc"
  shows "\<exists>cc'. buildCellConstraints cix lcs cc = Some cc' \<and> length cc' = length cc
           \<and> (\<forall>c < length cc. set (cc' ! c) = set (cc ! c) \<union> {ci \<in> set cix. c \<in> set (localIdx (lcs ! ci))})"
  using assms
proof (induction cix arbitrary: cc)
  case Nil
  then show ?case by simp
next
  case (Cons ci cix)
  have ci: "ci < length lcs" using Cons.prems(1) by simp
  have "\<forall>li \<in> set (localIdx (lcs ! ci)). li < length cc"
    using Cons.prems(2) nth_mem [OF ci] by blast
  from pushConstraint_inv [OF this, of ci] obtain cc1 where
    p: "pushConstraint ci (localIdx (lcs ! ci)) cc = Some cc1" "length cc1 = length cc"
    "\<forall>c < length cc. set (cc1 ! c) = set (cc ! c) \<union> (if c \<in> set (localIdx (lcs ! ci)) then {ci} else {})"
    by blast
  from Cons.IH [of cc1] Cons.prems p(2) obtain cc' where
    r: "buildCellConstraints cix lcs cc1 = Some cc'" "length cc' = length cc"
    "\<forall>c < length cc. set (cc' ! c) = set (cc1 ! c) \<union> {ci \<in> set cix. c \<in> set (localIdx (lcs ! ci))}"
    by auto
  have "set (cc' ! c) = set (cc ! c) \<union> {ci' \<in> set (ci # cix). c \<in> set (localIdx (lcs ! ci'))}"
    if "c < length cc" for c
    using r(3) p(3) that by auto
  then show ?case using p r ci by (simp add: vget_def)
qed

lemma cellOrder_perm:
  "length (cellOrder cc n) = n" "set (cellOrder cc n) = {0..<n}" "distinct (cellOrder cc n)"
  by (simp_all add: cellOrder_def)

lemma orderPos_fold:
  assumes "distinct order" "k \<le> length order" "\<forall>p < length order. order ! p < length op0"
  shows "length (foldl (\<lambda>op i. op[order ! i := i]) op0 [0..<k]) = length op0
         \<and> (\<forall>p < k. foldl (\<lambda>op i. op[order ! i := i]) op0 [0..<k] ! (order ! p) = p)"
  using assms(2)
proof (induction k)
  case 0
  then show ?case by simp
next
  case (Suc k)
  let ?op = "foldl (\<lambda>op i. op[order ! i := i]) op0 [0..<k]"
  have ih: "length ?op = length op0" "\<forall>p < k. ?op ! (order ! p) = p" using Suc by simp_all
  have k: "k < length order" using Suc.prems by simp
  have "?op[order ! k := k] ! (order ! p) = p" if "p < Suc k" for p
  proof (cases "p = k")
    case True
    then show ?thesis using ih(1) assms(3) k by simp
  next
    case False
    then have "p < k" using that by simp
    then have "order ! p \<noteq> order ! k" using assms(1) k by (simp add: nth_eq_iff_index_eq)
    then show ?thesis using ih(2) \<open>p < k\<close> by simp
  qed
  then show ?case using ih(1) by simp
qed

lemma wf_enum_solve:
  assumes lcs: "\<forall>lc \<in> set lcs. \<forall>li \<in> set (localIdx lc). li < n"
    and cc: "buildCellConstraints [0..<length lcs] lcs (replicate n []) = Some cc"
  shows "wf_enum n (cellOrder cc n) (buildOrderPos (cellOrder cc n) n) cc lcs"
proof -
  let ?order = "cellOrder cc n" and ?op = "buildOrderPos (cellOrder cc n) n"
  from buildCellConstraints_inv [of "[0..<length lcs]" lcs "replicate n []"] lcs cc
  have lc: "length cc = n"
    and sc: "\<forall>c < n. set (cc ! c) = {ci \<in> set [0..<length lcs]. c \<in> set (localIdx (lcs ! ci))}"
    by auto
  have o: "length ?order = n" "set ?order = {0..<n}" "distinct ?order" by (rule cellOrder_perm)+
  have ob: "\<forall>p < length ?order. ?order ! p < length (replicate n (0::nat))"
  proof (intro allI impI)
    fix p assume "p < length ?order"
    then have "?order ! p \<in> set ?order" by simp
    then show "?order ! p < length (replicate n (0::nat))" using o(2) by simp
  qed
  from orderPos_fold [OF o(3) _ ob, of n] o(1)
  have op: "length ?op = n" "\<forall>p < n. ?op ! (?order ! p) = p"
    by (simp_all add: buildOrderPos_def)
  have inv: "?op ! c < n \<and> ?order ! (?op ! c) = c" if "c < n" for c
  proof -
    have "c \<in> set ?order" using that o(2) by simp
    then obtain p where p: "p < n" "?order ! p = c" using o(1) by (auto simp: in_set_conv_nth)
    then show ?thesis using op(2) by auto
  qed
  have r: "?order ! p < n" if "p < n" for p
    using ob that o(1) by simp
  show ?thesis
    using o(1) op lc sc inv r lcs by (auto simp: wf_enum_def)
qed

text \<open>
  What every component result satisfies after the enumeration: the shapes of its vectors,
  non-negative counts, \<open>badCounts[i][k] \<le> counts[k]\<close>, and, summing over the cells,
  \<open>\<Sum>i. badCounts[i][k] = k * counts[k]\<close> (each counted assignment with \<open>k\<close> bad cells
  is counted once for each of them).
\<close>

definition cr_ok :: "ComponentResult \<Rightarrow> bool" where
  "cr_ok cr =
     (length (globalIndices cr) = size_cr cr \<and> length (counts_cr cr) = size_cr cr + 1
      \<and> length (badCounts cr) = size_cr cr
      \<and> (\<forall>i < size_cr cr. length (badCounts cr ! i) = size_cr cr + 1)
      \<and> (\<forall>k \<le> size_cr cr.
            0 \<le> counts_cr cr ! k
            \<and> (\<Sum>i < size_cr cr. badCounts cr ! i ! k) = real k * counts_cr cr ! k
            \<and> (\<forall>i < size_cr cr. 0 \<le> badCounts cr ! i ! k \<and> badCounts cr ! i ! k \<le> counts_cr cr ! k)))"

lemma finite_found: "finite (found P (set (assignments n)) k)" "finite (foundBad P (set (assignments n)) i k)"
  by (simp_all add: found_def foundBad_def)

lemma gainB_le: "gainB P R (set (assignments n)) i k \<le> gainC P R (set (assignments n)) k"
proof -
  have "foundBad P (set (assignments n)) i k \<subseteq> found P (set (assignments n)) k"
    by (auto simp: found_def foundBad_def)
  then have "card (foundBad P (set (assignments n)) i k) \<le> card (found P (set (assignments n)) k)"
    by (intro card_mono finite_found)
  then show ?thesis by (simp add: gainB_def gainC_def)
qed

lemma gain_nonneg: "0 \<le> gainC P R S k" "0 \<le> gainB P R S i k"
  by (simp_all add: gainC_def gainB_def)

lemma binary_count:
  fixes a :: "nat list"
  assumes "set a \<subseteq> {0, 1}"
  shows "(\<Sum>i < length a. if a ! i \<noteq> 0 then 1 else 0) = sum_list a"
proof -
  have "(if a ! i \<noteq> 0 then 1 else 0) = a ! i" if "i < length a" for i
  proof -
    have "a ! i \<in> set a" using that by simp
    then have "a ! i \<in> {0, 1}" using assms by blast
    then show ?thesis by auto
  qed
  then have "(\<Sum>i < length a. if a ! i \<noteq> 0 then 1 else 0) = (\<Sum>i < length a. a ! i)"
    by (intro sum.cong) auto
  also have "\<dots> = sum_list a" by (simp add: sum_list_sum_nth atLeast0LessThan)
  finally show ?thesis .
qed

lemma double_count:
  "(\<Sum>i < n. card (foundBad P (set (assignments n)) i k)) = k * card (found P (set (assignments n)) k)"
proof -
  let ?F = "found P (set (assignments n)) k"
  have fb: "foundBad P (set (assignments n)) i k = {a \<in> ?F. a ! i \<noteq> 0}" for i
    by (auto simp: found_def foundBad_def)
  have c: "card {a \<in> ?F. a ! i \<noteq> 0} = (\<Sum>a \<in> ?F. if a ! i \<noteq> 0 then 1 else 0)" for i
    by (simp add: sum.If_cases finite_found Int_def)
  have "(\<Sum>i < n. card (foundBad P (set (assignments n)) i k))
        = (\<Sum>i < n. \<Sum>a \<in> ?F. if a ! i \<noteq> 0 then 1 else 0)"
    by (simp only: fb c)
  also have "\<dots> = (\<Sum>a \<in> ?F. \<Sum>i < n. if a ! i \<noteq> 0 then 1 else 0)" by (rule sum.swap)
  also have "\<dots> = (\<Sum>a \<in> ?F. k)"
  proof (rule sum.cong [OF refl])
    fix a assume "a \<in> ?F"
    then have a: "length a = n" "set a \<subseteq> {0, 1}" "sum_list a = k"
      by (auto simp: found_def set_assignments)
    show "(\<Sum>i < n. if a ! i \<noteq> 0 then 1 else 0) = k"
      using binary_count [OF a(2)] a(1,3) by simp
  qed
  also have "\<dots> = k * card ?F" by simp
  finally show ?thesis .
qed

lemma gain_double_count:
  "(\<Sum>i < n. gainB P R (set (assignments n)) i k) = real k * gainC P R (set (assignments n)) k"
proof (cases "int k \<le> R")
  case True
  have "(\<Sum>i < n. gainB P R (set (assignments n)) i k)
        = real (\<Sum>i < n. card (foundBad P (set (assignments n)) i k))"
    using True by (simp add: gainB_def)
  also have "\<dots> = real (k * card (found P (set (assignments n)) k))" by (simp only: double_count)
  finally show ?thesis using True by (simp add: gainC_def)
next
  case False
  then show ?thesis by (simp add: gainB_def gainC_def)
qed

lemma solveComponent_inv:
  assumes inv: "uf_inv (uf_parent st)"
    and cons: "\<forall>con \<in> set constraints. \<forall>fi \<in> set (frontierLocalIdx con). fi < length (uf_parent st)"
    and small: "length (snd kv) \<le> 40"
  shows "\<exists>st' cr. solveComponent constraints frontier R numUnknown st kv = Some st'
           \<and> uf_inv (uf_parent st') \<and> length (uf_parent st') = length (uf_parent st)
           \<and> loopProb st' = loopProb st \<and> compResults st' = compResults st @ [cr]
           \<and> cr_ok cr \<and> globalIndices cr = snd kv"
proof -
  let ?members = "snd kv"
  let ?n = "length ?members"
  let ?g2l = "buildGlobalToLocal ?members"
  have g: "\<forall>x v. ?g2l x = Some v \<longrightarrow> v < ?n" using buildGlobalToLocal_bound by blast
  from filterConstraints_inv [OF inv cons g, of "[]" "fst kv"] obtain lcs p' where
    f: "filterConstraints constraints (fst kv) ?g2l (uf_parent st) [] = Some (lcs, p')"
    and l: "length p' = length (uf_parent st)" and i: "uf_inv p'"
    and lb: "\<forall>lc \<in> set lcs. \<forall>li \<in> set (localIdx lc). li < ?n"
    by auto
  from buildCellConstraints_inv [of "[0..<length lcs]" lcs "replicate ?n []"] lb obtain cc where
    c: "buildCellConstraints [0..<length lcs] lcs (replicate ?n []) = Some cc" by auto
  let ?order = "cellOrder cc ?n"
  let ?op = "buildOrderPos ?order ?n"
  have wf: "wf_enum ?n ?order ?op cc lcs" using wf_enum_solve [OF lb c] .
  let ?P = "accepted ?n ?order ?op cc lcs"
  let ?A = "set (assignments ?n)"
  from enumerate_init [OF wf, of R] obtain es where
    e: "enumerateComponent 0 0 ?n R ?order ?op cc lcs (initEnum ?n) = Some es"
    and lc: "length (counts es) = ?n + 1" and lbc: "length (badCnts es) = ?n"
    and cv: "\<forall>k \<le> ?n. counts es ! k = gainC ?P R ?A k"
    and bv: "\<forall>i < ?n. length (badCnts es ! i) = ?n + 1 \<and> (\<forall>k \<le> ?n. badCnts es ! i ! k = gainB ?P R ?A i k)"
    by blast
  let ?cr = "\<lparr>size_cr = ?n, counts_cr = counts es, badCounts = badCnts es, globalIndices = ?members\<rparr>"
  let ?st' = "st\<lparr>uf_parent := p', compResults := compResults st @ [?cr]\<rparr>"
  have run: "solveComponent constraints frontier R numUnknown st kv = Some ?st'"
    using f c e small by (simp add: solveComponent_def Let_def)
  have sm: "(\<Sum>i < ?n. badCnts es ! i ! k) = real k * counts es ! k" if "k \<le> ?n" for k
  proof -
    have "(\<Sum>i < ?n. badCnts es ! i ! k) = (\<Sum>i < ?n. gainB ?P R ?A i k)"
      using bv that by (intro sum.cong) auto
    then show ?thesis using gain_double_count [where n = ?n and P = ?P and R = R and k = k] cv that by simp
  qed
  have ok: "cr_ok ?cr"
    unfolding cr_ok_def using lc lbc cv bv sm gain_nonneg gainB_le by simp
  show ?thesis
    using run i l ok by (intro exI [of _ ?st'] exI [of _ ?cr]) simp
qed

lemma solveComponents_inv:
  assumes "uf_inv (uf_parent st)"
    and "\<forall>con \<in> set constraints. \<forall>fi \<in> set (frontierLocalIdx con). fi < length (uf_parent st)"
    and "\<forall>kv \<in> set comps. length (snd kv) \<le> 40"
  shows "\<exists>st' crs. solveComponents constraints frontier R numUnknown comps st = Some st'
           \<and> loopProb st' = loopProb st \<and> compResults st' = compResults st @ crs
           \<and> (\<forall>cr \<in> set crs. cr_ok cr) \<and> map globalIndices crs = map snd comps"
  using assms
proof (induction comps arbitrary: st)
  case Nil
  then show ?case by simp
next
  case (Cons kv comps)
  have "length (snd kv) \<le> 40" using Cons.prems(3) by simp
  from solveComponent_inv [OF Cons.prems(1,2) this, of frontier R numUnknown] obtain st1 cr where
    s: "solveComponent constraints frontier R numUnknown st kv = Some st1"
    "uf_inv (uf_parent st1)" "length (uf_parent st1) = length (uf_parent st)"
    "loopProb st1 = loopProb st" "compResults st1 = compResults st @ [cr]" "cr_ok cr"
    "globalIndices cr = snd kv" by blast
  from Cons.IH [OF s(2)] Cons.prems(2,3) s(3) obtain st' crs where
    r: "solveComponents constraints frontier R numUnknown comps st1 = Some st'"
    "loopProb st' = loopProb st1" "compResults st' = compResults st1 @ crs"
    "\<forall>cr \<in> set crs. cr_ok cr" "map globalIndices crs = map snd comps" by auto
  show ?case
    using s r by (intro exI [of _ st'] exI [of _ "cr # crs"]) simp
qed

lemma clueConstraint_bound:
  assumes "con \<in> set (clueConstraint g fs (sort fs) ci)"
  shows "\<forall>fi \<in> set (frontierLocalIdx con). fi < length (sort fs)"
proof -
  let ?hs = "filter (\<lambda>n. \<not> isRevealedBad (g ! n) \<and> n \<in> set fs) (getNeighbors ci)"
  have "frontierLocalIdx con = map (lower_bound (sort fs)) ?hs"
    using assms
    by (auto simp: clueConstraint_def scanNeighbors_eq Let_def split_beta split: if_splits)
  moreover have "lower_bound (sort fs) n < length (sort fs)" if "n \<in> set ?hs" for n
  proof -
    have "n \<in> set (sort fs)" using that by simp
    then show ?thesis using lower_bound_index [of "sort fs" n] by simp
  qed
  ultimately show ?thesis by auto
qed

lemma buildConstraints_bound:
  "\<forall>con \<in> set (buildConstraints g fs (sort fs) clues). \<forall>fi \<in> set (frontierLocalIdx con). fi < length (sort fs)"
  using clueConstraint_bound by (auto simp: buildConstraints_def)

lemma distinct_subset_length:
  assumes "distinct xs" "set xs \<subseteq> set ys"
  shows "length xs \<le> length ys"
proof -
  have "length xs = card (set xs)" using assms(1) by (simp add: distinct_card)
  also have "\<dots> \<le> card (set ys)" using assms(2) by (intro card_mono) auto
  also have "\<dots> \<le> length ys" by (rule card_length)
  finally show ?thesis .
qed

lemma combine_some:
  assumes un: "length (unknownCells c) \<le> 40"
  shows "\<exists>crs. combine g c R
           = Some \<lparr>frontierOf = sort (buildFrontierSet (unknownCells c) (constraintCells c)),
                   interiorOf = filter (\<lambda>idx. idx \<notin> set (buildFrontierSet (unknownCells c) (constraintCells c)))
                                  (unknownCells c),
                   resultsOf = crs, probsOf = probs c,
                   interiorPoly = interiorPolyOf (length (filter (\<lambda>idx. idx \<notin> set (buildFrontierSet (unknownCells c) (constraintCells c))) (unknownCells c))),
                   compProd = compProdOf crs,
                   totalWays = totalWaysOf R (convolve (interiorPolyOf (length (filter (\<lambda>idx. idx \<notin> set (buildFrontierSet (unknownCells c) (constraintCells c))) (unknownCells c)))) (compProdOf crs))\<rparr>
         \<and> (\<forall>cr \<in> set crs. cr_ok cr)
         \<and> mset (concat (map globalIndices crs))
             = mset [0..<length (buildFrontierSet (unknownCells c) (constraintCells c))]"
proof -
  let ?fs = "buildFrontierSet (unknownCells c) (constraintCells c)"
  let ?fr = "sort ?fs"
  let ?nF = "length ?fr"
  let ?cons = "buildConstraints g ?fs ?fr (constraintCells c)"
  have "set ?fs \<subseteq> set (unknownCells c)" by (auto simp: buildFrontierSet_set)
  then have "length ?fs \<le> length (unknownCells c)"
    using buildFrontierSet_set(2) by (intro distinct_subset_length)
  then have nF: "?nF \<le> 40" using un by simp
  have cb: "\<forall>con \<in> set ?cons. \<forall>fi \<in> set (frontierLocalIdx con). fi < length (uf_init ?nF)"
    using buildConstraints_bound [of g ?fs "constraintCells c"] by (simp add: uf_init_def)
  from uniteConstraints_inv [OF uf_inv_init cb] obtain parent where
    u: "uniteConstraints ?cons (uf_init ?nF) = Some parent" "length parent = ?nF" "uf_inv parent"
    by (auto simp: uf_init_def)
  have "\<forall>i \<in> set [0..<?nF]. i < length parent" using u(2) by simp
  from groupComponents_inv [OF u(3) this, of "[]"] obtain comps parent' where
    gr: "groupComponents [0..<?nF] parent [] = Some (comps, parent')" "length parent' = ?nF"
    "uf_inv parent'" "mset (concat (map snd comps)) = mset [0..<?nF]"
    using u(2) by auto
  have small: "\<forall>kv \<in> set comps. length (snd kv) \<le> 40"
  proof
    fix kv assume "kv \<in> set comps"
    then have "mset (snd kv) \<subseteq># mset (concat (map snd comps))"
      by (metis (no_types) in_set_conv_decomp concat_append concat.simps(2) list.map(2) map_append
          mset_append mset_subset_eq_add_left mset_subset_eq_add_right subset_mset.order_trans)
    then have "size (mset (snd kv)) \<le> size (mset [0..<?nF])"
      unfolding gr(4) by (rule size_mset_mono)
    then show "length (snd kv) \<le> 40" using nF by simp
  qed
  let ?st0 = "\<lparr>uf_parent = parent', loopProb = probs c, compResults = []\<rparr>"
  have cb': "\<forall>con \<in> set ?cons. \<forall>fi \<in> set (frontierLocalIdx con). fi < length (uf_parent ?st0)"
    using cb gr(2) by (simp add: uf_init_def)
  have i0: "uf_inv (uf_parent ?st0)" using gr(3) by simp
  from solveComponents_inv [OF i0 cb' small, of ?fr R "length (unknownCells c)"] obtain st' crs where
    sc: "solveComponents ?cons ?fr R (length (unknownCells c)) comps ?st0 = Some st'"
    "loopProb st' = probs c" "compResults st' = crs" "\<forall>cr \<in> set crs. cr_ok cr"
    "map globalIndices crs = map snd comps"
    by auto
  have run: "combine g c R
           = Some \<lparr>frontierOf = ?fr,
                   interiorOf = filter (\<lambda>idx. idx \<notin> set ?fs) (unknownCells c),
                   resultsOf = crs, probsOf = probs c,
                   interiorPoly = interiorPolyOf (length (filter (\<lambda>idx. idx \<notin> set ?fs) (unknownCells c))),
                   compProd = compProdOf crs,
                   totalWays = totalWaysOf R (convolve (interiorPolyOf (length (filter (\<lambda>idx. idx \<notin> set ?fs) (unknownCells c)))) (compProdOf crs))\<rparr>"
    using u(1) gr(1) sc(1,2,3) by (simp add: combine_def Let_def)
  have "mset (concat (map globalIndices crs)) = mset [0..<length ?fs]"
    using sc(5) gr(4) by simp
  with run sc(4) show ?thesis by blast
qed

section \<open>The probabilities \<open>solve\<close> writes\<close>

text \<open>
  The loops of step 7 as the list of writes \<open>badProb[cell] = value\<close> they perform, in order;
  \<open>numeratorOf\<close> is the sum the inner loop accumulates.
\<close>

definition numeratorOf :: "real list \<Rightarrow> real list \<Rightarrow> int \<Rightarrow> nat list \<Rightarrow> real" where
  "numeratorOf row tw R ks =
     sum_list (map (\<lambda>k. if 0 \<le> R - int k \<and> R - int k < int (length tw)
                          then row ! k * tw ! nat (R - int k) else 0) ks)"

definition budgetRange :: "int \<Rightarrow> nat \<Rightarrow> nat list" where
  "budgetRange R n = takeWhile (\<lambda>k. int k \<le> R) [0..<n + 1]"

definition applyWrites :: "(nat \<times> real) list \<Rightarrow> real list \<Rightarrow> real list" where
  "applyWrites ws bp = foldl (\<lambda>b w. b[fst w := snd w]) bp ws"

definition cellWrites :: "ComponentResult \<Rightarrow> nat list \<Rightarrow> real list \<Rightarrow> int \<Rightarrow> real \<Rightarrow> nat list \<Rightarrow> (nat \<times> real) list" where
  "cellWrites cr frontier tw R ways lis =
     map (\<lambda>li. (frontier ! (globalIndices cr ! li),
                 numeratorOf (badCounts cr ! li) tw R (budgetRange R (size_cr cr)) / ways)) lis"

definition frontierWrites :: "ComponentResult list \<Rightarrow> nat list \<Rightarrow> real list \<Rightarrow> int \<Rightarrow> real \<Rightarrow> nat list \<Rightarrow> (nat \<times> real) list" where
  "frontierWrites crs frontier ip R ways cix =
     concat (map (\<lambda>ci. if counts_cr (crs ! ci) = [] then []
                        else cellWrites (crs ! ci) frontier (convolve (withoutCompOf crs ci) ip) R ways
                               [0..<size_cr (crs ! ci)]) cix)"

lemma applyWrites_append: "applyWrites (ws @ vs) bp = applyWrites vs (applyWrites ws bp)"
  by (simp add: applyWrites_def)

lemma applyWrites_length: "length (applyWrites ws bp) = length bp"
  unfolding applyWrites_def by (induction ws arbitrary: bp) auto

lemma numeratorLoop_eq:
  assumes "li < length bc" "\<forall>k \<in> set ks. k < length (bc ! li)"
  shows "numeratorLoop ks bc li tw R num = Some (num + numeratorOf (bc ! li) tw R ks)"
  using assms(2)
proof (induction ks arbitrary: num)
  case Nil
  then show ?case by (simp add: numeratorOf_def)
next
  case (Cons k ks)
  have ih: "numeratorLoop ks bc li tw R x = Some (x + numeratorOf (bc ! li) tw R ks)" for x
    using Cons by simp
  have k: "k < length (bc ! li)" using Cons.prems by simp
  show ?case
    using assms(1) k by (simp add: ih vget_def numeratorOf_def Let_def)
qed

lemma budgetRange_bound: "k \<in> set (budgetRange R n) \<Longrightarrow> k \<le> n"
  using set_takeWhileD [of k "\<lambda>k. int k \<le> R" "[0..<n + 1]"] by (auto simp: budgetRange_def)

lemma assignCells_eq:
  assumes "\<forall>li \<in> set lis. li < length (globalIndices cr) \<and> globalIndices cr ! li < length frontier
             \<and> frontier ! (globalIndices cr ! li) < length bp \<and> li < length (badCounts cr)
             \<and> size_cr cr < length (badCounts cr ! li)"
  shows "assignCells lis cr frontier tw R ways bp = Some (applyWrites (cellWrites cr frontier tw R ways lis) bp)"
  using assms
proof (induction lis arbitrary: bp)
  case Nil
  then show ?case by (simp add: applyWrites_def cellWrites_def)
next
  case (Cons li lis)
  have li: "li < length (globalIndices cr)" "globalIndices cr ! li < length frontier"
    "frontier ! (globalIndices cr ! li) < length bp" "li < length (badCounts cr)"
    "size_cr cr < length (badCounts cr ! li)" using Cons.prems by simp_all
  have "\<forall>k \<in> set (budgetRange R (size_cr cr)). k < length (badCounts cr ! li)"
    using budgetRange_bound li(5) by fastforce
  from numeratorLoop_eq [OF li(4) this, of tw R 0]
  have n: "numeratorLoop (takeWhile (\<lambda>k. int k \<le> R) [0..<size_cr cr + 1]) (badCounts cr) li tw R 0
           = Some (numeratorOf (badCounts cr ! li) tw R (budgetRange R (size_cr cr)))"
    by (simp add: budgetRange_def)
  let ?bp1 = "bp[frontier ! (globalIndices cr ! li)
               := numeratorOf (badCounts cr ! li) tw R (budgetRange R (size_cr cr)) / ways]"
  have ih: "assignCells lis cr frontier tw R ways ?bp1
            = Some (applyWrites (cellWrites cr frontier tw R ways lis) ?bp1)"
    using Cons.IH [of ?bp1] Cons.prems by simp
  show ?case
    using li n ih by (simp add: vget_def vset_def applyWrites_def cellWrites_def)
qed

definition results_ok :: "ComponentResult list \<Rightarrow> nat list \<Rightarrow> nat \<Rightarrow> bool" where
  "results_ok crs frontier n =
     ((\<forall>cr \<in> set crs. cr_ok cr \<and> (\<forall>gi \<in> set (globalIndices cr). gi < length frontier))
      \<and> (\<forall>j < length frontier. frontier ! j < n))"

lemma frontierProbs_eq:
  assumes ok: "results_ok crs frontier (length bp)" and cix: "\<forall>ci \<in> set cix. ci < length crs"
  shows "frontierProbs cix crs frontier ip R ways bp
         = Some (applyWrites (frontierWrites crs frontier ip R ways cix) bp)"
  using cix ok
proof (induction cix arbitrary: bp)
  case Nil
  then show ?case by (simp add: applyWrites_def frontierWrites_def)
next
  case (Cons ci cix)
  let ?cr = "crs ! ci"
  have cr: "?cr \<in> set crs" using Cons.prems(1) by simp
  show ?case
  proof (cases "counts_cr ?cr = []")
    case True
    then show ?thesis using Cons by (simp add: frontierWrites_def)
  next
    case False
    let ?tw = "convolve (withoutCompOf crs ci) ip"
    let ?ws = "cellWrites ?cr frontier ?tw R ways [0..<size_cr ?cr]"
    have okc: "cr_ok ?cr" and gi: "\<forall>gi \<in> set (globalIndices ?cr). gi < length frontier"
      and fr: "\<forall>j < length frontier. frontier ! j < length bp"
      using Cons.prems(2) cr by (auto simp: results_ok_def)
    have "\<forall>li \<in> set [0..<size_cr ?cr]. li < length (globalIndices ?cr) \<and> globalIndices ?cr ! li < length frontier
             \<and> frontier ! (globalIndices ?cr ! li) < length bp \<and> li < length (badCounts ?cr)
             \<and> size_cr ?cr < length (badCounts ?cr ! li)"
      using okc gi fr by (auto simp: cr_ok_def)
    from assignCells_eq [OF this, of ?tw R ways]
    have a: "assignCells [0..<size_cr ?cr] ?cr frontier ?tw R ways bp = Some (applyWrites ?ws bp)" .
    have ok': "results_ok crs frontier (length (applyWrites ?ws bp))"
      using Cons.prems(2) by (simp add: applyWrites_length)
    have ih: "frontierProbs cix crs frontier ip R ways (applyWrites ?ws bp)
              = Some (applyWrites (frontierWrites crs frontier ip R ways cix) (applyWrites ?ws bp))"
      using Cons.IH [OF _ ok'] Cons.prems(1) by simp
    show ?thesis
      using False a ih by (simp add: frontierWrites_def applyWrites_append Let_def)
  qed
qed

definition clamp01 :: "real \<Rightarrow> real" where
  "clamp01 x = (if x < 0 then 0 else if x > 1 then 1 else x)"

lemma clampCell_nth:
  "length (clampCell bp i) = length bp"
  "j < length bp \<Longrightarrow> clampCell bp i ! j = (if j = i then clamp01 (bp ! j) else bp ! j)"
  by (auto simp: clampCell_def clamp01_def Let_def nth_list_update)

lemma clamp_fold:
  assumes "distinct idxs"
  shows "length (foldl clampCell bp idxs) = length bp
         \<and> (\<forall>j < length bp. foldl clampCell bp idxs ! j = (if j \<in> set idxs then clamp01 (bp ! j) else bp ! j))"
  using assms
proof (induction idxs arbitrary: bp)
  case Nil
  then show ?case by simp
next
  case (Cons i idxs)
  have d: "distinct idxs" "i \<notin> set idxs" using Cons.prems by auto
  from Cons.IH [OF d(1), of "clampCell bp i"] d(2) show ?case
    by (auto simp: clampCell_nth)
qed

lemma clampProbs_nth:
  "length (clampProbs bp) = length bp"
  "j < length bp \<Longrightarrow> j < TOTAL_CELLS \<Longrightarrow> clampProbs bp ! j = clamp01 (bp ! j)"
  using clamp_fold [of "[0..<TOTAL_CELLS]" bp] by (simp_all add: clampProbs_def)

lemma applyWrites_nth:
  "j < length bp \<Longrightarrow>
     applyWrites ws bp ! j = (case map_of (rev ws) j of Some v \<Rightarrow> v | None \<Rightarrow> bp ! j)"
proof (induction ws rule: rev_induct)
  case Nil
  then show ?case by (simp add: applyWrites_def)
next
  case (snoc w ws)
  have "applyWrites (ws @ [w]) bp = (applyWrites ws bp)[fst w := snd w]"
    by (simp add: applyWrites_def)
  then show ?case
    using snoc by (cases w) (auto simp: nth_list_update applyWrites_length)
qed

lemma solveComponent_loopProb:
  assumes "length (snd kv) \<le> 40"
  shows "solveComponent cons fr R nU (st\<lparr>loopProb := x\<rparr>) kv
         = map_option (\<lambda>s. s\<lparr>loopProb := x\<rparr>) (solveComponent cons fr R nU st kv)"
  using assms
  by (simp add: solveComponent_def Let_def split: Option.bind_split prod.splits)

lemma solveComponents_loopProb:
  assumes "\<forall>kv \<in> set comps. length (snd kv) \<le> 40"
  shows "solveComponents cons fr R nU comps (st\<lparr>loopProb := x\<rparr>)
         = map_option (\<lambda>s. s\<lparr>loopProb := x\<rparr>) (solveComponents cons fr R nU comps st)"
  using assms
proof (induction comps arbitrary: st)
  case Nil
  then show ?case by simp
next
  case (Cons kv comps)
  have s: "length (snd kv) \<le> 40" using Cons.prems by simp
  show ?case
  proof (cases "solveComponent cons fr R nU st kv")
    case None
    then show ?thesis using solveComponent_loopProb [OF s, where st = st and x = x and cons = cons and fr = fr and R = R and nU = nU] by simp
  next
    case (Some st1)
    then have "solveComponent cons fr R nU (st\<lparr>loopProb := x\<rparr>) kv = Some (st1\<lparr>loopProb := x\<rparr>)"
      using solveComponent_loopProb [OF s, where st = st and x = x and cons = cons and fr = fr and R = R and nU = nU] by simp
    then show ?thesis using Some Cons.IH [of st1] Cons.prems by simp
  qed
qed

text \<open>What \<open>combine\<close> returns, field by field.\<close>

definition combined_ok :: "Classification \<Rightarrow> int \<Rightarrow> Combined \<Rightarrow> bool" where
  "combined_ok c R cb =
     (frontierOf cb = sort (buildFrontierSet (unknownCells c) (constraintCells c))
      \<and> interiorOf cb = filter (\<lambda>idx. idx \<notin> set (buildFrontierSet (unknownCells c) (constraintCells c)))
                          (unknownCells c)
      \<and> probsOf cb = probs c
      \<and> interiorPoly cb = interiorPolyOf (length (interiorOf cb))
      \<and> compProd cb = compProdOf (resultsOf cb)
      \<and> totalWays cb = totalWaysOf R (convolve (interiorPoly cb) (compProd cb))
      \<and> (\<forall>cr \<in> set (resultsOf cb). cr_ok cr)
      \<and> mset (concat (map globalIndices (resultsOf cb))) = mset [0..<length (frontierOf cb)])"

lemma combine_ok:
  assumes "length (unknownCells c) \<le> 40"
  shows "\<exists>cb. combine g c R = Some cb \<and> combined_ok c R cb"
proof -
  from combine_some [OF assms, of g R] obtain crs where
    r: "combine g c R
           = Some \<lparr>frontierOf = sort (buildFrontierSet (unknownCells c) (constraintCells c)),
                   interiorOf = filter (\<lambda>idx. idx \<notin> set (buildFrontierSet (unknownCells c) (constraintCells c)))
                                  (unknownCells c),
                   resultsOf = crs, probsOf = probs c,
                   interiorPoly = interiorPolyOf (length (filter (\<lambda>idx. idx \<notin> set (buildFrontierSet (unknownCells c) (constraintCells c))) (unknownCells c))),
                   compProd = compProdOf crs,
                   totalWays = totalWaysOf R (convolve (interiorPolyOf (length (filter (\<lambda>idx. idx \<notin> set (buildFrontierSet (unknownCells c) (constraintCells c))) (unknownCells c)))) (compProdOf crs))\<rparr>"
    and ok: "\<forall>cr \<in> set crs. cr_ok cr"
    and ms: "mset (concat (map globalIndices crs))
             = mset [0..<length (buildFrontierSet (unknownCells c) (constraintCells c))]"
    by blast
  show ?thesis
    unfolding r using ok ms by (simp add: combined_ok_def)
qed

text \<open>\<open>badProb\<close> after \<open>finish\<close>, and after \<open>solve\<close> on each of its return paths.\<close>

definition finalProbs :: "Classification \<Rightarrow> int \<Rightarrow> Combined \<Rightarrow> real list" where
  "finalProbs c R cb =
     (if totalWays cb \<le> 0
      then assignAll (unknownCells c) (real_of_int R / real (length (unknownCells c))) (probsOf cb)
      else clampProbs
             (assignAll (interiorOf cb)
                (interiorNumeratorOf (length (interiorOf cb)) R (compProd cb) / totalWays cb)
                (applyWrites
                   (frontierWrites (resultsOf cb) (frontierOf cb) (interiorPoly cb) R (totalWays cb)
                      [0..<length (resultsOf cb)])
                   (probsOf cb))))"

lemma combined_results_ok:
  assumes ok: "combined_ok c R cb" and un: "\<forall>i \<in> set (unknownCells c). i < n"
  shows "results_ok (resultsOf cb) (frontierOf cb) n"
proof -
  let ?fs = "buildFrontierSet (unknownCells c) (constraintCells c)"
  have fr: "frontierOf cb = sort ?fs" using ok by (simp add: combined_ok_def)
  have "set (concat (map globalIndices (resultsOf cb))) = set [0..<length (frontierOf cb)]"
    using ok by (metis combined_ok_def mset_eq_setD)
  then have gi: "\<forall>cr \<in> set (resultsOf cb). \<forall>gi \<in> set (globalIndices cr). gi < length (frontierOf cb)"
    by auto
  have "frontierOf cb ! j < n" if "j < length (frontierOf cb)" for j
  proof -
    have "frontierOf cb ! j \<in> set (frontierOf cb)" using that by simp
    then have "frontierOf cb ! j \<in> set (unknownCells c)" using fr by (auto simp: buildFrontierSet_set)
    then show ?thesis using un by simp
  qed
  then show ?thesis using ok gi by (simp add: results_ok_def combined_ok_def)
qed

lemma finish_eq:
  assumes ok: "combined_ok c R cb" and un: "\<forall>i \<in> set (unknownCells c). i < length (probs c)"
  shows "finish c R cb = Some (finalProbs c R cb)"
proof (cases "totalWays cb \<le> 0")
  case True
  then show ?thesis by (simp add: finish_def finalProbs_def)
next
  case False
  have p: "probsOf cb = probs c" using ok by (simp add: combined_ok_def)
  have "results_ok (resultsOf cb) (frontierOf cb) (length (probsOf cb))"
    using combined_results_ok [OF ok un] p by simp
  from frontierProbs_eq [OF this, of "[0..<length (resultsOf cb)]" "interiorPoly cb" R "totalWays cb"]
  have f: "frontierProbs [0..<length (resultsOf cb)] (resultsOf cb) (frontierOf cb) (interiorPoly cb) R
             (totalWays cb) (probsOf cb)
           = Some (applyWrites (frontierWrites (resultsOf cb) (frontierOf cb) (interiorPoly cb) R
                      (totalWays cb) [0..<length (resultsOf cb)]) (probsOf cb))"
    by simp
  have e: "interiorOf cb = [] \<Longrightarrow> assignAll (interiorOf cb) x bp = bp" for x bp
    by (simp add: assignAll_def)
  show ?thesis
    using False f e by (auto simp: finish_def finalProbs_def Let_def)
qed

lemma wf_unknown:
  "length (unknownCells (classify g bp)) \<le> 40"
  "\<forall>i \<in> set (unknownCells (classify g bp)). i < TOTAL_CELLS"
  "distinct (unknownCells (classify g bp))"
proof -
  have "length (filter (\<lambda>i. g ! i = Undug) [0..<TOTAL_CELLS]) \<le> length [0..<TOTAL_CELLS]"
    by (rule length_filter_le)
  then show "length (unknownCells (classify g bp)) \<le> 40"
    by (simp add: classify_lists TOTAL_CELLS_40)
  show "\<forall>i \<in> set (unknownCells (classify g bp)). i < TOTAL_CELLS" by (simp add: classify_lists)
  show "distinct (unknownCells (classify g bp))" by (simp add: classify_lists)
qed

definition solvedProbs :: "ThrillDiggerSolver \<Rightarrow> Combined \<Rightarrow> real list" where
  "solvedProbs s cb =
     (let c = classify (grid s) (badProb s); R = remainingBadOf c
      in if unknownCells c = [] then probs c
         else if R \<le> 0 then assignAll (unknownCells c) 0 (probs c)
         else if constraintCells c = []
         then assignAll (unknownCells c) (real_of_int R / real (length (unknownCells c))) (probs c)
         else finalProbs c R cb)"

lemma solve_eq:
  assumes wf: "wf_solver s"
  shows "\<exists>cb. combine (grid s) (classify (grid s) (badProb s))
                 (remainingBadOf (classify (grid s) (badProb s))) = Some cb
              \<and> combined_ok (classify (grid s) (badProb s)) (remainingBadOf (classify (grid s) (badProb s))) cb
              \<and> solve s = Some (s\<lparr>badProb := solvedProbs s cb\<rparr>)"
proof -
  let ?c = "classify (grid s) (badProb s)"
  let ?R = "remainingBadOf ?c"
  from combine_ok [OF wf_unknown(1), where g = "grid s" and R = ?R] obtain cb where
    cb: "combine (grid s) ?c ?R = Some cb" "combined_ok ?c ?R cb" by blast
  have "length (probs ?c) = TOTAL_CELLS" using wf by (simp add: classify_probs(1) wf_solver_def)
  then have "\<forall>i \<in> set (unknownCells ?c). i < length (probs ?c)" using wf_unknown(2) by simp
  from finish_eq [OF cb(2) this] have f: "finish ?c ?R cb = Some (finalProbs ?c ?R cb)" .
  have "solve s = Some (s\<lparr>badProb := solvedProbs s cb\<rparr>)"
    using cb(1) f by (simp add: solve_def solvedProbs_def Let_def)
  with cb show ?thesis by blast
qed

lemma solvedProbs_length:
  assumes "wf_solver s" "combined_ok (classify (grid s) (badProb s)) R cb"
  shows "length (solvedProbs s cb) = TOTAL_CELLS"
proof -
  have "length (probs (classify (grid s) (badProb s))) = TOTAL_CELLS"
    using assms(1) by (simp add: classify_probs(1) wf_solver_def)
  moreover have "probsOf cb = probs (classify (grid s) (badProb s))"
    using assms(2) by (simp add: combined_ok_def)
  ultimately show ?thesis
    using assignAll_nth
    by (simp add: solvedProbs_def finalProbs_def Let_def clampProbs_nth(1) applyWrites_length)
qed

lemma group_small:
  assumes un: "length (unknownCells c) \<le> 40"
  shows "\<exists>parent comps parent'.
           uniteConstraints (buildConstraints g (buildFrontierSet (unknownCells c) (constraintCells c))
               (sort (buildFrontierSet (unknownCells c) (constraintCells c))) (constraintCells c))
             (uf_init (length (sort (buildFrontierSet (unknownCells c) (constraintCells c))))) = Some parent
         \<and> groupComponents [0..<length (sort (buildFrontierSet (unknownCells c) (constraintCells c)))] parent []
             = Some (comps, parent')
         \<and> (\<forall>kv \<in> set comps. length (snd kv) \<le> 40)"
proof -
  let ?fs = "buildFrontierSet (unknownCells c) (constraintCells c)"
  let ?fr = "sort ?fs"
  let ?nF = "length ?fr"
  let ?cons = "buildConstraints g ?fs ?fr (constraintCells c)"
  have "set ?fs \<subseteq> set (unknownCells c)" by (auto simp: buildFrontierSet_set)
  then have "length ?fs \<le> length (unknownCells c)"
    using buildFrontierSet_set(2) by (intro distinct_subset_length)
  then have nF: "?nF \<le> 40" using un by simp
  have cb: "\<forall>con \<in> set ?cons. \<forall>fi \<in> set (frontierLocalIdx con). fi < length (uf_init ?nF)"
    using buildConstraints_bound [of g ?fs "constraintCells c"] by (simp add: uf_init_def)
  from uniteConstraints_inv [OF uf_inv_init cb] obtain parent where
    u: "uniteConstraints ?cons (uf_init ?nF) = Some parent" "length parent = ?nF" "uf_inv parent"
    by (auto simp: uf_init_def)
  have "\<forall>i \<in> set [0..<?nF]. i < length parent" using u(2) by simp
  from groupComponents_inv [OF u(3) this, of "[]"] obtain comps parent' where
    gr: "groupComponents [0..<?nF] parent [] = Some (comps, parent')"
    "mset (concat (map snd comps)) = mset [0..<?nF]"
    using u(2) by auto
  have small: "\<forall>kv \<in> set comps. length (snd kv) \<le> 40"
  proof
    fix kv assume "kv \<in> set comps"
    then have "mset (snd kv) \<subseteq># mset (concat (map snd comps))"
      by (metis (no_types) in_set_conv_decomp concat_append concat.simps(2) list.map(2) map_append
          mset_append mset_subset_eq_add_left mset_subset_eq_add_right subset_mset.order_trans)
    then have "size (mset (snd kv)) \<le> size (mset [0..<?nF])"
      unfolding gr(2) by (rule size_mset_mono)
    then show "length (snd kv) \<le> 40" using nF by simp
  qed
  show ?thesis using u(1) gr(1) small by blast
qed

lemma combine_probs:
  assumes un: "length (unknownCells c) \<le> 40"
    and eq: "unknownCells c' = unknownCells c" "constraintCells c' = constraintCells c"
  shows "combine g c' R = map_option (\<lambda>cb. cb\<lparr>probsOf := probs c'\<rparr>) (combine g c R)"
proof -
  let ?fs = "buildFrontierSet (unknownCells c) (constraintCells c)"
  let ?fr = "sort ?fs"
  let ?cons = "buildConstraints g ?fs ?fr (constraintCells c)"
  from group_small [OF un, of g] obtain parent comps parent' where
    u: "uniteConstraints ?cons (uf_init (length ?fr)) = Some parent"
    and gr: "groupComponents [0..<length ?fr] parent [] = Some (comps, parent')"
    and small: "\<forall>kv \<in> set comps. length (snd kv) \<le> 40" by blast
  let ?st = "\<lparr>uf_parent = parent', loopProb = probs c, compResults = []\<rparr>"
  have "\<lparr>uf_parent = parent', loopProb = probs c', compResults = []\<rparr> = ?st\<lparr>loopProb := probs c'\<rparr>"
    by simp
  then have sc: "solveComponents ?cons ?fr R (length (unknownCells c)) comps
            \<lparr>uf_parent = parent', loopProb = probs c', compResults = []\<rparr>
        = map_option (\<lambda>s. s\<lparr>loopProb := probs c'\<rparr>)
            (solveComponents ?cons ?fr R (length (unknownCells c)) comps ?st)"
    using solveComponents_loopProb [OF small, where st = ?st and x = "probs c'" and cons = ?cons
            and fr = ?fr and R = R and nU = "length (unknownCells c)"]
    by simp
  show ?thesis
  proof (cases "solveComponents ?cons ?fr R (length (unknownCells c)) comps ?st")
    case None
    then show ?thesis using u gr sc eq by (simp add: combine_def Let_def)
  next
    case (Some st')
    then show ?thesis using u gr sc eq by (simp add: combine_def Let_def)
  qed
qed

lemma map_nth_fun: "map (\<lambda>i. f (xs ! i)) [0..<length xs] = map f xs"
proof -
  have "map (\<lambda>i. f (xs ! i)) [0..<length xs] = map f (map ((!) xs) [0..<length xs])"
    by (simp add: comp_def)
  then show ?thesis by (simp add: map_nth)
qed

lemma frontierWrites_fst_gen:
  assumes "\<forall>ci \<in> set cix. cr_ok (crs ! ci)"
  shows "map fst (frontierWrites crs fr ip R ways cix)
         = map ((!) fr) (concat (map (\<lambda>ci. globalIndices (crs ! ci)) cix))"
  using assms
proof (induction cix)
  case Nil
  then show ?case by (simp add: frontierWrites_def)
next
  case (Cons ci cix)
  have ok: "cr_ok (crs ! ci)" using Cons.prems by simp
  then have ne: "counts_cr (crs ! ci) \<noteq> []" by (auto simp: cr_ok_def)
  have "map fst (cellWrites (crs ! ci) fr tw R ways [0..<size_cr (crs ! ci)])
        = map ((!) fr) (globalIndices (crs ! ci))" for tw
  proof -
    have "map fst (cellWrites (crs ! ci) fr tw R ways [0..<size_cr (crs ! ci)])
          = map (\<lambda>li. fr ! (globalIndices (crs ! ci) ! li)) [0..<length (globalIndices (crs ! ci))]"
      using ok by (simp add: cellWrites_def cr_ok_def comp_def)
    then show ?thesis by (simp only: map_nth_fun)
  qed
  moreover have "map fst (frontierWrites crs fr ip R ways cix)
         = map ((!) fr) (concat (map (\<lambda>ci. globalIndices (crs ! ci)) cix))"
    using Cons by simp
  ultimately show ?case using ne by (simp add: frontierWrites_def)
qed

lemma frontierWrites_fst:
  assumes "\<forall>cr \<in> set crs. cr_ok cr"
  shows "map fst (frontierWrites crs fr ip R ways [0..<length crs])
         = map ((!) fr) (concat (map globalIndices crs))"
proof -
  have "\<forall>ci \<in> set [0..<length crs]. cr_ok (crs ! ci)" using assms by simp
  from frontierWrites_fst_gen [OF this, of fr ip R ways]
  show ?thesis by (simp only: map_nth_fun)
qed

lemma combined_writes:
  assumes ok: "combined_ok c R cb"
  shows "mset (map fst (frontierWrites (resultsOf cb) (frontierOf cb) ip R' ways [0..<length (resultsOf cb)]))
         = mset (frontierOf cb)"
proof -
  have m: "mset (concat (map globalIndices (resultsOf cb))) = mset [0..<length (frontierOf cb)]"
    using ok unfolding combined_ok_def by blast
  have "mset (map ((!) (frontierOf cb)) (concat (map globalIndices (resultsOf cb))))
        = image_mset ((!) (frontierOf cb)) (mset (concat (map globalIndices (resultsOf cb))))"
    by (rule mset_map)
  also have "\<dots> = image_mset ((!) (frontierOf cb)) (mset [0..<length (frontierOf cb)])"
    by (simp only: m)
  also have "\<dots> = mset (map ((!) (frontierOf cb)) [0..<length (frontierOf cb)])"
    by (rule mset_map [symmetric])
  also have "\<dots> = mset (frontierOf cb)" by (simp only: map_nth)
  finally show ?thesis
    using frontierWrites_fst [of "resultsOf cb"] ok by (simp add: combined_ok_def)
qed

section \<open>Idempotence and the contradiction fallback\<close>

text \<open>
  \<open>remainingBad\<close> and the number of hidden cells, read off the grid; \<open>totalWaysAt\<close> is
  the value of \<open>totalWays\<close> when \<open>solve\<close> reaches its step 6, \<open>None\<close> when it returns
  before.
\<close>

definition remainingBadOfGrid :: "CellContent list \<Rightarrow> int" where
  "remainingBadOfGrid g = int TOTAL_BAD - int (length (filter isRevealedBad g))"

definition hiddenCount :: "CellContent list \<Rightarrow> nat" where
  "hiddenCount g = length (filter (\<lambda>x. x = Undug) g)"

definition totalWaysAt :: "ThrillDiggerSolver \<Rightarrow> real option" where
  "totalWaysAt s =
     (let c = classify (grid s) (badProb s); remainingBad = remainingBadOf c
      in if unknownCells c = [] \<or> remainingBad \<le> 0 \<or> constraintCells c = [] then None
         else map_option totalWays (combine (grid s) c remainingBad))"

lemma filter_index_length:
  "length (filter (\<lambda>i. P (g ! i)) [0..<length g]) = length (filter P g)"
proof -
  have "filter P g = filter P (map ((!) g) [0..<length g])"
    by (simp add: map_nth)
  also have "\<dots> = map ((!) g) (filter (P \<circ> (!) g) [0..<length g])"
    by (simp add: filter_map)
  finally show ?thesis by (simp add: comp_def)
qed

lemma grid_counts:
  assumes "length g = TOTAL_CELLS"
  shows "remainingBadOf (classify g bp) = remainingBadOfGrid g"
    and "length (unknownCells (classify g bp)) = hiddenCount g"
  using filter_index_length [of isRevealedBad g] filter_index_length [of "\<lambda>x. x = Undug" g] assms
  by (simp_all add: remainingBadOf_def remainingBadOfGrid_def hiddenCount_def classify_lists)

lemma probs_agree:
  assumes "length bp = TOTAL_CELLS" "length bp' = TOTAL_CELLS" "j < TOTAL_CELLS"
    and "j \<notin> set (unknownCells (classify g bp))"
  shows "probs (classify g bp) ! j = probs (classify g bp') ! j"
proof -
  have "g ! j \<noteq> Undug" using assms(3,4) by (simp add: classify_lists)
  then have "isRevealedBad (g ! j) \<or> isRevealedGood (g ! j)" using isRevealed_cases by blast
  then show ?thesis using assms(1,2,3) by (auto simp: classify_probs(2))
qed

lemma assignAll_agree:
  assumes "length a = length b" "\<forall>j < length a. j \<notin> set U \<longrightarrow> a ! j = b ! j"
  shows "assignAll U p a = assignAll U p b"
proof (rule nth_equalityI)
  show "length (assignAll U p a) = length (assignAll U p b)"
    using assignAll_nth [of U p a] assignAll_nth [of U p b] assms(1) by simp
  fix j assume "j < length (assignAll U p a)"
  then have j: "j < length a" using assignAll_nth [of U p a] by simp
  then show "assignAll U p a ! j = assignAll U p b ! j"
    using assignAll_nth [of U p a] assignAll_nth [of U p b] assms by simp
qed

lemma writes_agree:
  assumes len: "length a = TOTAL_CELLS" "length b = TOTAL_CELLS"
    and ag: "\<forall>j < TOTAL_CELLS. j \<notin> set U \<longrightarrow> a ! j = b ! j"
    and cov: "set U \<subseteq> set I \<union> fst ` set ws"
  shows "clampProbs (assignAll I p (applyWrites ws a)) = clampProbs (assignAll I p (applyWrites ws b))"
proof (rule nth_equalityI)
  have la: "length (assignAll I p (applyWrites ws a)) = TOTAL_CELLS"
    and lb: "length (assignAll I p (applyWrites ws b)) = TOTAL_CELLS"
    using assignAll_nth [of I p "applyWrites ws a"] assignAll_nth [of I p "applyWrites ws b"] len
    by (simp_all add: applyWrites_length)
  show "length (clampProbs (assignAll I p (applyWrites ws a)))
        = length (clampProbs (assignAll I p (applyWrites ws b)))"
    using la lb by (simp add: clampProbs_nth(1))
  fix j assume "j < length (clampProbs (assignAll I p (applyWrites ws a)))"
  then have j: "j < TOTAL_CELLS" using la by (simp add: clampProbs_nth(1))
  have w: "applyWrites ws a ! j = applyWrites ws b ! j" if "j \<notin> set I"
  proof (cases "j \<in> set U")
    case True
    then have "j \<in> fst ` set (rev ws)" using cov that by auto
    then obtain v where "map_of (rev ws) j = Some v"
      by (metis map_of_eq_None_iff not_Some_eq)
    then show ?thesis using j len by (simp add: applyWrites_nth)
  next
    case False
    then have "a ! j = b ! j" using ag j by simp
    then show ?thesis using j len by (simp add: applyWrites_nth split: option.split)
  qed
  have "assignAll I p (applyWrites ws a) ! j = assignAll I p (applyWrites ws b) ! j"
    using assignAll_nth [of I p "applyWrites ws a"] assignAll_nth [of I p "applyWrites ws b"] len j w
    by (simp add: applyWrites_length)
  then show "clampProbs (assignAll I p (applyWrites ws a)) ! j
             = clampProbs (assignAll I p (applyWrites ws b)) ! j"
    using la lb j by (simp add: clampProbs_nth(2))
qed

lemma combined_cover:
  assumes ok: "combined_ok c R cb"
  shows "set (unknownCells c)
         \<subseteq> set (interiorOf cb)
           \<union> fst ` set (frontierWrites (resultsOf cb) (frontierOf cb) ip R' ways [0..<length (resultsOf cb)])"
proof -
  have "set (map fst (frontierWrites (resultsOf cb) (frontierOf cb) ip R' ways [0..<length (resultsOf cb)]))
        = set (frontierOf cb)"
    using combined_writes [OF ok, of ip R' ways] by (rule mset_eq_setD)
  then have "fst ` set (frontierWrites (resultsOf cb) (frontierOf cb) ip R' ways [0..<length (resultsOf cb)])
        = set (frontierOf cb)" by simp
  then show ?thesis using ok by (auto simp: combined_ok_def)
qed

lemma solve_indep:
  assumes wfs: "wf_solver s" and wft: "wf_solver t" and g: "grid t = grid s"
  shows "\<exists>bp. solve s = Some (s\<lparr>badProb := bp\<rparr>) \<and> solve t = Some (t\<lparr>badProb := bp\<rparr>)
              \<and> length bp = TOTAL_CELLS"
proof -
  let ?c = "classify (grid s) (badProb s)" and ?c' = "classify (grid s) (badProb t)"
  let ?R = "remainingBadOf ?c"
  let ?U = "unknownCells ?c"
  have eq: "unknownCells ?c' = ?U" "constraintCells ?c' = constraintCells ?c" "remainingBadOf ?c' = ?R"
    by (simp_all add: classify_lists remainingBadOf_def)
  have len: "length (badProb s) = TOTAL_CELLS" "length (badProb t) = TOTAL_CELLS"
    using wfs wft by (simp_all add: wf_solver_def)
  have lp: "length (probs ?c) = TOTAL_CELLS" "length (probs ?c') = TOTAL_CELLS"
    using len by (simp_all add: classify_probs(1))
  have ag: "\<forall>j < TOTAL_CELLS. j \<notin> set ?U \<longrightarrow> probs ?c ! j = probs ?c' ! j"
    using probs_agree [OF len] by blast
  from solve_eq [OF wfs] obtain cb where
    cb: "combine (grid s) ?c ?R = Some cb" "combined_ok ?c ?R cb"
    "solve s = Some (s\<lparr>badProb := solvedProbs s cb\<rparr>)" by blast
  let ?cb' = "cb\<lparr>probsOf := probs ?c'\<rparr>"
  have cb': "combine (grid s) ?c' ?R = Some ?cb'"
    using combine_probs [OF wf_unknown(1) eq(1,2), of "grid s" ?R] cb(1) by simp
  from solve_eq [OF wft] obtain cb2 where
    "combine (grid t) (classify (grid t) (badProb t)) (remainingBadOf (classify (grid t) (badProb t))) = Some cb2"
    "solve t = Some (t\<lparr>badProb := solvedProbs t cb2\<rparr>)" by blast
  then have t: "solve t = Some (t\<lparr>badProb := solvedProbs t ?cb'\<rparr>)"
    using cb' g eq(3) by simp
  have a1: "assignAll ?U p (probs ?c) = assignAll ?U p (probs ?c')" for p
    using lp ag by (intro assignAll_agree) simp_all
  have e0: "probs ?c = probs ?c'" if "?U = []"
    using lp ag that by (intro nth_equalityI) simp_all
  have pc: "probsOf cb = probs ?c" using cb(2) by (simp add: combined_ok_def)
  have cov: "set ?U \<subseteq> set (interiorOf cb)
         \<union> fst ` set (frontierWrites (resultsOf cb) (frontierOf cb) (interiorPoly cb) ?R (totalWays cb)
                         [0..<length (resultsOf cb)])"
    using combined_cover [OF cb(2)] .
  have fin: "finalProbs ?c ?R cb = finalProbs ?c' ?R ?cb'"
    using a1 writes_agree [OF lp ag cov] pc eq(1) by (simp add: finalProbs_def)
  have "solvedProbs s cb = solvedProbs t ?cb'"
    using e0 a1 fin eq g by (simp add: solvedProbs_def Let_def)
  moreover have "length (solvedProbs s cb) = TOTAL_CELLS" using solvedProbs_length [OF wfs cb(2)] .
  ultimately show ?thesis using cb(3) t by auto
qed

text \<open>Two boards: one whose clues contradict each other, and one with a bomb and three clues.\<close>

definition contradictoryBoard :: ThrillDiggerSolver where
  "contradictoryBoard = \<lparr>grid = Green # Silver # replicate 38 Undug, badProb = replicate 40 (2 / 5)\<rparr>"

definition exampleBoard :: ThrillDiggerSolver where
  "exampleBoard =
     \<lparr>grid = [Blue, Undug, Blue] @ replicate 17 Undug @ [Red, Bomb] @ replicate 18 Undug,
      badProb = replicate 40 (2 / 5)\<rparr>"


text \<open>
  Claim C5. \<open>solve\<close> returns in every state of the solver, and a second call right after
  it (no \<open>setCell\<close> in between) returns the very same state: the probabilities it writes
  depend on the grid alone.
\<close>

theorem solve_idempotent:
  assumes wf: "wf_solver s"
  shows "\<exists>s'. solve s = Some s' \<and> solve s' = Some s'"
proof -
  from solve_indep [OF wf wf] obtain bp where
    s: "solve s = Some (s\<lparr>badProb := bp\<rparr>)" "length bp = TOTAL_CELLS" by auto
  let ?s' = "s\<lparr>badProb := bp\<rparr>"
  have wf': "wf_solver ?s'" using wf s(2) by (simp add: wf_solver_def)
  from solve_indep [OF wf wf', simplified] obtain bp' where
    "solve s = Some (s\<lparr>badProb := bp'\<rparr>)" "solve ?s' = Some (?s'\<lparr>badProb := bp'\<rparr>)" by auto
  then have "solve ?s' = Some ?s'" using s(1) by simp
  with s(1) show ?thesis by blast
qed

theorem solve_idempotent_witness:
  "wf_solver exampleBoard \<and> (\<exists>s'. solve exampleBoard = Some s' \<and> solve s' = Some s')"
proof -
  have wf: "wf_solver exampleBoard" by (simp add: wf_solver_def exampleBoard_def TOTAL_CELLS_40)
  from solve_idempotent [OF wf] wf show ?thesis by blast
qed

text \<open>
  Claim C4, amended. \<open>solve\<close> returns in every state; and whenever it reaches step 6
  with \<open>totalWays \<le> 0\<close>, there is a hidden cell (the division is by a positive number)
  and every hidden cell holds the uniform fallback \<open>remainingBad / |hiddenCells|\<close>. Here
  \<open>totalWays\<close> is the count \<open>solve\<close> convolves from the constraints of step 3, whose
  ranges are clamped to \<open>[0, |hidden neighbours|]\<close>.
\<close>

theorem solve_contradiction_fallback:
  assumes wf: "wf_solver s"
  shows "\<exists>s'. solve s = Some s' \<and> grid s' = grid s \<and> wf_solver s'
           \<and> (\<forall>tw. totalWaysAt s = Some tw \<and> tw \<le> 0 \<longrightarrow>
                 0 < hiddenCount (grid s)
                 \<and> (\<forall>i < TOTAL_CELLS. grid s ! i = Undug \<longrightarrow>
                       badProb s' ! i
                       = real_of_int (remainingBadOfGrid (grid s)) / real (hiddenCount (grid s))))"
proof -
  let ?c = "classify (grid s) (badProb s)"
  let ?R = "remainingBadOf ?c"
  let ?U = "unknownCells ?c"
  have len: "length (grid s) = TOTAL_CELLS" "length (badProb s) = TOTAL_CELLS"
    using wf by (simp_all add: wf_solver_def)
  from solve_eq [OF wf] obtain cb where
    cb: "combine (grid s) ?c ?R = Some cb" "combined_ok ?c ?R cb"
    "solve s = Some (s\<lparr>badProb := solvedProbs s cb\<rparr>)" by blast
  let ?s' = "s\<lparr>badProb := solvedProbs s cb\<rparr>"
  have l: "length (solvedProbs s cb) = TOTAL_CELLS" using solvedProbs_length [OF wf cb(2)] .
  have wf': "wf_solver ?s'" using wf l by (simp add: wf_solver_def)
  have fb: "0 < hiddenCount (grid s)
            \<and> (\<forall>i < TOTAL_CELLS. grid s ! i = Undug \<longrightarrow>
                  badProb ?s' ! i = real_of_int (remainingBadOfGrid (grid s)) / real (hiddenCount (grid s)))"
    if tw: "totalWaysAt s = Some tw" "tw \<le> 0" for tw
  proof -
    have ne: "?U \<noteq> []" "\<not> ?R \<le> 0" "constraintCells ?c \<noteq> []"
      using tw(1) by (auto simp: totalWaysAt_def Let_def split: if_splits)
    then have "totalWays cb = tw" using tw(1) cb(1) by (simp add: totalWaysAt_def Let_def)
    then have sp: "solvedProbs s cb
                   = assignAll ?U (real_of_int ?R / real (length ?U)) (probs ?c)"
      using ne tw(2) cb(2) by (simp add: solvedProbs_def finalProbs_def Let_def combined_ok_def)
    have lp: "length (probs ?c) = TOTAL_CELLS" using len by (simp add: classify_probs(1))
    have "solvedProbs s cb ! i = real_of_int ?R / real (length ?U)"
      if "i < TOTAL_CELLS" "grid s ! i = Undug" for i
    proof -
      have "i \<in> set ?U" using that by (simp add: classify_lists)
      then show ?thesis
        unfolding sp using assignAll_nth [of ?U "real_of_int ?R / real (length ?U)" "probs ?c"] lp that(1)
        by simp
    qed
    moreover have "0 < length ?U" using ne(1) by simp
    ultimately show ?thesis using grid_counts [OF len(1), of "badProb s"] by simp
  qed
  show ?thesis
    using cb(3) wf' fb by (intro exI [of _ ?s']) auto
qed

theorem solve_contradiction_fallback_witness:
  "wf_solver contradictoryBoard \<and> totalWaysAt contradictoryBoard = Some 0
   \<and> (\<exists>s'. solve contradictoryBoard = Some s' \<and> badProb s' ! 5 = 8 / 19)"
proof -
  have wf: "wf_solver contradictoryBoard" by (simp add: wf_solver_def contradictoryBoard_def TOTAL_CELLS_40)
  have tw: "totalWaysAt contradictoryBoard = Some 0" by code_simp
  have v: "remainingBadOfGrid (grid contradictoryBoard) = 16" "hiddenCount (grid contradictoryBoard) = 38"
    "grid contradictoryBoard ! 5 = Undug" "(5::nat) < TOTAL_CELLS"
    by code_simp+
  from solve_contradiction_fallback [OF wf] obtain s' where
    s: "solve contradictoryBoard = Some s'"
    and f: "\<forall>tw. totalWaysAt contradictoryBoard = Some tw \<and> tw \<le> 0 \<longrightarrow>
                 0 < hiddenCount (grid contradictoryBoard)
                 \<and> (\<forall>i < TOTAL_CELLS. grid contradictoryBoard ! i = Undug \<longrightarrow>
                       badProb s' ! i
                       = real_of_int (remainingBadOfGrid (grid contradictoryBoard))
                         / real (hiddenCount (grid contradictoryBoard)))"
    by blast
  from f tw v have "badProb s' ! 5 = 8 / 19" by simp
  with wf tw s show ?thesis by blast
qed

text \<open>
  What the specification calls a state with no valid assignment: a world is the set of
  hidden cells that are bad; it is valid when it holds exactly \<open>remainingBad\<close> cells and
  the number of bad neighbours of every clue, revealed or in the world, lies in the range
  of the clue's rank. \<open>rankZeroBoard\<close> is the board of the specification's example, a
  rank-0 clue next to a revealed bomb.
\<close>

definition badNeighbours :: "CellContent list \<Rightarrow> nat set \<Rightarrow> nat \<Rightarrow> nat" where
  "badNeighbours g w ci =
     length (filter (\<lambda>n. isRevealedBad (g ! n) \<or> (g ! n = Undug \<and> n \<in> w)) (getNeighbors ci))"

definition validWorld :: "CellContent list \<Rightarrow> nat set \<Rightarrow> bool" where
  "validWorld g w =
     (w \<subseteq> {i. i < TOTAL_CELLS \<and> g ! i = Undug} \<and> int (card w) = remainingBadOfGrid g
      \<and> (\<forall>ci < TOTAL_CELLS. isRevealedGood (g ! ci) \<longrightarrow>
             fst (badNeighborRange (g ! ci)) \<le> int (badNeighbours g w ci)
             \<and> int (badNeighbours g w ci) \<le> snd (badNeighborRange (g ! ci))))"

definition selfContradictory :: "CellContent list \<Rightarrow> bool" where
  "selfContradictory g = (\<not> (\<exists>w. validWorld g w))"

definition rankZeroBoard :: ThrillDiggerSolver where
  "rankZeroBoard = \<lparr>grid = Green # Bomb # replicate 38 Undug, badProb = replicate 40 (2 / 5)\<rparr>"


text \<open>No world is valid on \<open>rankZeroBoard\<close>: the clue at cell 0 already has a bad neighbour.\<close>

lemma rankZero_contradictory: "selfContradictory (grid rankZeroBoard)"
proof -
  have n: "getNeighbors 0 = [1, 8, 9]" by code_simp
  have g: "grid rankZeroBoard ! 0 = Green" "isRevealedBad (grid rankZeroBoard ! Suc 0)"
    by (simp_all add: rankZeroBoard_def isRevealedBad_def)
  have pos: "0 < badNeighbours (grid rankZeroBoard) w 0" for w
    by (simp add: badNeighbours_def n g(2))
  have c: "(0::nat) < TOTAL_CELLS" "isRevealedGood (grid rankZeroBoard ! 0)"
    by (simp_all add: TOTAL_CELLS_40 g(1))
  have "\<not> validWorld (grid rankZeroBoard) w" for w
  proof
    assume "validWorld (grid rankZeroBoard) w"
    then have "\<forall>ci < TOTAL_CELLS. isRevealedGood (grid rankZeroBoard ! ci) \<longrightarrow>
                 int (badNeighbours (grid rankZeroBoard) w ci) \<le> snd (badNeighborRange (grid rankZeroBoard ! ci))"
      by (simp add: validWorld_def)
    with c have "int (badNeighbours (grid rankZeroBoard) w 0) \<le> snd (badNeighborRange (grid rankZeroBoard ! 0))"
      by blast
    then show False using pos [of w] by (simp add: g(1))
  qed
  then show ?thesis by (simp add: selfContradictory_def)
qed

text \<open>
  The value \<open>solve\<close> leaves on an interior cell when it reaches step 8, from the fields
  of \<open>combine\<close>.
\<close>

lemma interior_value:
  assumes wf: "wf_solver s"
    and cb: "map_option (\<lambda>cb. (interiorOf cb, compProd cb, totalWays cb))
               (combine (grid s) (classify (grid s) (badProb s))
                  (remainingBadOf (classify (grid s) (badProb s)))) = Some (I, cp, tw)"
    and ne: "unknownCells (classify (grid s) (badProb s)) \<noteq> []"
      "0 < remainingBadOf (classify (grid s) (badProb s))"
      "constraintCells (classify (grid s) (badProb s)) \<noteq> []"
    and tw: "0 < tw" and j: "j \<in> set I"
  shows "map_option (\<lambda>s'. badProb s' ! j) (solve s)
         = Some (clamp01 (interiorNumeratorOf (length I) (remainingBadOf (classify (grid s) (badProb s))) cp / tw))"
proof -
  let ?c = "classify (grid s) (badProb s)"
  let ?R = "remainingBadOf ?c"
  from solve_eq [OF wf] obtain cb' where
    c: "combine (grid s) ?c ?R = Some cb'" "combined_ok ?c ?R cb'"
    "solve s = Some (s\<lparr>badProb := solvedProbs s cb'\<rparr>)" by blast
  have f: "interiorOf cb' = I" "compProd cb' = cp" "totalWays cb' = tw" using cb c(1) by simp_all
  let ?pI = "interiorNumeratorOf (length I) ?R cp / tw"
  let ?base = "applyWrites (frontierWrites (resultsOf cb') (frontierOf cb') (interiorPoly cb') ?R tw
                              [0..<length (resultsOf cb')]) (probsOf cb')"
  have sp: "solvedProbs s cb' = clampProbs (assignAll I ?pI ?base)"
    using ne tw f by (simp add: solvedProbs_def finalProbs_def Let_def)
  have "length (probs ?c) = TOTAL_CELLS" using wf by (simp add: classify_probs(1) wf_solver_def)
  then have lb: "length ?base = TOTAL_CELLS"
    using c(2) by (simp add: applyWrites_length combined_ok_def)
  have "set I \<subseteq> set (unknownCells ?c)" using c(2) f(1) by (auto simp: combined_ok_def)
  then have jb: "j < TOTAL_CELLS" using j wf_unknown(2) [of "grid s" "badProb s"] by auto
  have "solvedProbs s cb' ! j = clamp01 ?pI"
    using assignAll_nth [of I ?pI ?base] lb jb j by (simp add: sp clampProbs_nth(2))
  then show ?thesis using c(3) by simp
qed


text \<open>
  Claim C4, the statement as first written: a contradictory state does not always get the
  fallback. No world is valid on \<open>rankZeroBoard\<close>, but step 3 clamps the clue's range
  \<open>[0 - 1, 0 - 1]\<close> to \<open>[0, 0]\<close>, \<open>totalWays\<close> is positive, and the hidden cell 2 gets
  \<open>5/12\<close>, not the uniform \<open>15/38\<close>.
\<close>

theorem solve_contradiction_clamped:
  "selfContradictory (grid rankZeroBoard)
   \<and> totalWaysAt rankZeroBoard = Some 5567902560
   \<and> grid rankZeroBoard ! 2 = Undug
   \<and> real_of_int (remainingBadOfGrid (grid rankZeroBoard)) / real (hiddenCount (grid rankZeroBoard)) = 15 / 38
   \<and> map_option (\<lambda>s'. badProb s' ! 2) (solve rankZeroBoard) = Some (5 / 12)"
proof -
  let ?c = "classify (grid rankZeroBoard) (badProb rankZeroBoard)"
  let ?I = "[2, 3, 4, 5, 6, 7] @ [10..<40]"
  have wf: "wf_solver rankZeroBoard" by (simp add: wf_solver_def rankZeroBoard_def TOTAL_CELLS_40)
  have tw: "totalWaysAt rankZeroBoard = Some 5567902560" by code_simp
  have cb: "map_option (\<lambda>cb. (interiorOf cb, compProd cb, totalWays cb))
              (combine (grid rankZeroBoard) ?c (remainingBadOf ?c)) = Some (?I, [1, 0, 0], 5567902560)"
    by code_simp
  have R: "remainingBadOf ?c = 15" by code_simp
  have ne: "unknownCells ?c \<noteq> []" "0 < remainingBadOf ?c" "constraintCells ?c \<noteq> []"
    using tw by (auto simp: totalWaysAt_def Let_def split: if_splits)
  have v: "clamp01 (interiorNumeratorOf (length ?I) 15 [1, 0, 0] / 5567902560) = 5 / 12"
    by code_simp
  have "map_option (\<lambda>s'. badProb s' ! 2) (solve rankZeroBoard)
        = Some (clamp01 (interiorNumeratorOf (length ?I) (remainingBadOf ?c) [1, 0, 0] / 5567902560))"
    by (rule interior_value [OF wf cb ne]) simp_all
  then have "map_option (\<lambda>s'. badProb s' ! 2) (solve rankZeroBoard) = Some (5 / 12)"
    by (simp only: R v)
  moreover have "grid rankZeroBoard ! 2 = Undug" by (simp add: rankZeroBoard_def)
  moreover have "real_of_int (remainingBadOfGrid (grid rankZeroBoard)) / real (hiddenCount (grid rankZeroBoard)) = 15 / 38"
    by code_simp
  ultimately show ?thesis using rankZero_contradictory tw by simp
qed


section \<open>Conservation of the number of bad cells\<close>

text \<open>
  The vectors \<open>counts\<close>, \<open>interiorPoly\<close>, \<open>compProd\<close> are read as the coefficients of
  polynomials: \<open>coef\<close> extends a vector by zeros, \<open>conv\<close> is the product of two
  coefficient sequences and \<open>deriv\<close> the sequence \<open>k * a k\<close> (the coefficients of
  \<open>x * a'(x)\<close>), for which the product rule holds.
\<close>

definition coef :: "real list \<Rightarrow> nat \<Rightarrow> real" where
  "coef a k = (if k < length a then a ! k else 0)"

definition conv :: "(nat \<Rightarrow> real) \<Rightarrow> (nat \<Rightarrow> real) \<Rightarrow> nat \<Rightarrow> real" where
  "conv f g k = (\<Sum>i \<le> k. f i * g (k - i))"

definition deriv :: "(nat \<Rightarrow> real) \<Rightarrow> nat \<Rightarrow> real" where
  "deriv f k = real k * f k"

lemma conv_comm: "conv f g = conv g f"
proof
  fix k
  have "(\<Sum>i \<le> k. f i * g (k - i)) = (\<Sum>i \<le> k. g i * f (k - i))"
    by (rule sum.reindex_bij_witness [where i = "\<lambda>i. k - i" and j = "\<lambda>i. k - i"]) auto
  then show "conv f g k = conv g f k" by (simp add: conv_def)
qed

lemma conv_assoc: "conv (conv f g) h = conv f (conv g h)"
proof
  fix k
  have "conv (conv f g) h k = (\<Sum>i \<le> k. \<Sum>j \<le> i. f j * g (i - j) * h (k - i))"
    by (simp add: conv_def sum_distrib_right)
  also have "\<dots> = (\<Sum>(i, j) \<in> (SIGMA i:{..k}. {..i}). f j * g (i - j) * h (k - i))"
    by (simp add: sum.Sigma)
  also have "\<dots> = (\<Sum>(j, l) \<in> (SIGMA j:{..k}. {..k - j}). f j * g l * h (k - j - l))"
    by (rule sum.reindex_bij_witness [where i = "\<lambda>(j, l). (j + l, j)" and j = "\<lambda>(i, j). (j, i - j)"])
       auto
  also have "\<dots> = (\<Sum>j \<le> k. \<Sum>l \<le> k - j. f j * g l * h (k - j - l))"
    by (simp add: sum.Sigma)
  also have "\<dots> = conv f (conv g h) k"
    by (simp add: conv_def sum_distrib_left mult.assoc)
  finally show "conv (conv f g) h k = conv f (conv g h) k" .
qed

lemma conv_left_comm: "conv f (conv g h) = conv g (conv f h)"
proof -
  have "conv f (conv g h) = conv (conv f g) h" by (simp only: conv_assoc)
  also have "\<dots> = conv (conv g f) h" by (simp only: conv_comm [of f g])
  finally show ?thesis by (simp only: conv_assoc)
qed

lemma deriv_conv: "deriv (conv f g) k = conv (deriv f) g k + conv f (deriv g) k"
proof -
  have "real k * (f i * g (k - i)) = real i * f i * g (k - i) + f i * (real (k - i) * g (k - i))"
    if "i \<le> k" for i
  proof -
    have "real k = real i + real (k - i)" using that by simp
    then have "real k * (f i * g (k - i)) = (real i + real (k - i)) * (f i * g (k - i))"
      by (rule arg_cong)
    also have "\<dots> = real i * f i * g (k - i) + f i * (real (k - i) * g (k - i))"
      by (simp add: algebra_simps)
    finally show ?thesis .
  qed
  then have "(\<Sum>i \<le> k. real k * (f i * g (k - i)))
             = (\<Sum>i \<le> k. real i * f i * g (k - i) + f i * (real (k - i) * g (k - i)))"
    by (intro sum.cong) auto
  then show ?thesis
    by (simp add: deriv_def conv_def sum_distrib_left sum.distrib)
qed

lemma conv_sum_left: "conv (\<lambda>k. \<Sum>c \<in> S. F c k) g k = (\<Sum>c \<in> S. conv (F c) g k)"
proof -
  have "conv (\<lambda>k. \<Sum>c \<in> S. F c k) g k = (\<Sum>i \<le> k. \<Sum>c \<in> S. F c i * g (k - i))"
    by (simp add: conv_def sum_distrib_right)
  also have "\<dots> = (\<Sum>c \<in> S. \<Sum>i \<le> k. F c i * g (k - i))" by (rule sum.swap)
  finally show ?thesis by (simp add: conv_def)
qed

lemma conv_sum_right: "conv g (\<lambda>k. \<Sum>c \<in> S. F c k) k = (\<Sum>c \<in> S. conv g (F c) k)"
  using conv_sum_left [where S = S and F = F and g = g and k = k]
  by (simp only: conv_comm [of g])

lemma conv_add_left: "conv (\<lambda>k. f k + f' k) g k = conv f g k + conv f' g k"
  by (simp add: conv_def algebra_simps sum.distrib)

lemma conv_unit: "conv (coef [1]) f = f"
proof
  fix k
  have "(\<Sum>i \<le> k. coef [1] i * f (k - i)) = (\<Sum>i \<le> k. if i = 0 then f k else 0)"
    by (intro sum.cong) (auto simp: coef_def)
  then show "conv (coef [1]) f k = f k" by (simp add: conv_def)
qed

lemma conv_nonneg: "(\<And>i. 0 \<le> f i) \<Longrightarrow> (\<And>i. 0 \<le> g i) \<Longrightarrow> 0 \<le> conv f g k"
  by (simp add: conv_def sum_nonneg)

lemma conv_mono_left:
  assumes "\<And>i. f i \<le> f' i" "\<And>i. 0 \<le> g i"
  shows "conv f g k \<le> conv f' g k"
  unfolding conv_def using assms by (intro sum_mono mult_right_mono) auto


text \<open>\<open>binomial\<close> is the binomial coefficient, and \<open>convolve\<close> the product of polynomials.\<close>

lemma binomial_loop:
  "k \<le> n \<Longrightarrow>
     foldl (\<lambda>result i. result * real_of_int (int n - int i) / real_of_int (int i + 1)) 1 [0..<k]
     = real (n choose k)"
proof (induction k)
  case 0
  then show ?case by simp
next
  case (Suc k)
  have "Suc k * (n choose Suc k) = (n - k) * (n choose k)"
    by (simp only: binomial_absorption binomial_absorb_comp)
  then have "real (Suc k) * real (n choose Suc k) = real (n - k) * real (n choose k)"
    by (metis of_nat_mult)
  then have "real (n choose Suc k) = real (n choose k) * real (n - k) / real (Suc k)"
    by (simp add: field_simps)
  moreover have "real_of_int (int n - int k) = real (n - k)" using Suc.prems by simp
  moreover have "real_of_int (int k + 1) = real (Suc k)" by simp
  ultimately show ?case using Suc by (simp del: of_nat_Suc of_nat_diff)
qed

lemma binomial_choose: "binomial (int n) (int k) = real (n choose k)"
proof -
  consider "n < k" | "k = 0" | "k = n" | "0 < k" "k < n" by linarith
  then show ?thesis
  proof cases
    case 1
    then show ?thesis by (simp add: binomial_def binomial_eq_0)
  next
    case 2
    then show ?thesis by (simp add: binomial_def)
  next
    case 3
    then show ?thesis by (simp add: binomial_def)
  next
    case 4
    let ?k' = "if int k > int n - int k then n - k else k"
    have k': "?k' \<le> n" by simp
    have "binomial (int n) (int k)
          = foldl (\<lambda>result i. result * real_of_int (int n - int i) / real_of_int (int i + 1)) 1 [0..<?k']"
      using 4 by (auto simp: binomial_def Let_def nat_diff_distrib)
    also have "\<dots> = real (n choose ?k')" using binomial_loop [OF k'] .
    also have "\<dots> = real (n choose k)" using 4 by (simp add: binomial_symmetric [symmetric])
    finally show ?thesis .
  qed
qed

lemma inner_fold:
  fixes res :: "real list"
  assumes "i + m \<le> length res"
  shows "length (foldl (\<lambda>result j. result[i + j := result ! (i + j) + x * b ! j]) res [0..<m]) = length res
         \<and> (\<forall>k < length res.
               foldl (\<lambda>result j. result[i + j := result ! (i + j) + x * b ! j]) res [0..<m] ! k
               = res ! k + (if i \<le> k \<and> k - i < m then x * b ! (k - i) else 0))"
  using assms
proof (induction m)
  case 0
  then show ?case by simp
next
  case (Suc m)
  let ?r = "foldl (\<lambda>result j. result[i + j := result ! (i + j) + x * b ! j]) res [0..<m]"
  have ih: "length ?r = length res"
    "\<forall>k < length res. ?r ! k = res ! k + (if i \<le> k \<and> k - i < m then x * b ! (k - i) else 0)"
    using Suc by simp_all
  have im: "i + m < length res" using Suc.prems by simp
  have "?r[i + m := ?r ! (i + m) + x * b ! m] ! k
        = res ! k + (if i \<le> k \<and> k - i < Suc m then x * b ! (k - i) else 0)"
    if "k < length res" for k
  proof (cases "k = i + m")
    case True
    then show ?thesis using ih im by simp
  next
    case False
    then have "\<not> (i \<le> k \<and> k - i = m)" by auto
    then have "(i \<le> k \<and> k - i < Suc m) = (i \<le> k \<and> k - i < m)" by auto
    then show ?thesis using ih that False by simp
  qed
  then show ?case using ih(1) by simp
qed

lemma outer_fold:
  fixes res :: "real list"
  assumes "n + length b \<le> length res + 1"
  shows "length (foldl (\<lambda>result i. foldl (\<lambda>result j. result[i + j := result ! (i + j) + a ! i * b ! j])
                      result [0..<length b]) res [0..<n]) = length res
         \<and> (\<forall>k < length res.
               foldl (\<lambda>result i. foldl (\<lambda>result j. result[i + j := result ! (i + j) + a ! i * b ! j])
                      result [0..<length b]) res [0..<n] ! k
               = res ! k + (\<Sum>i < n. if i \<le> k \<and> k - i < length b then a ! i * b ! (k - i) else 0))"
  using assms
proof (induction n)
  case 0
  then show ?case by simp
next
  case (Suc n)
  let ?r = "foldl (\<lambda>result i. foldl (\<lambda>result j. result[i + j := result ! (i + j) + a ! i * b ! j])
                      result [0..<length b]) res [0..<n]"
  have ih: "length ?r = length res"
    "\<forall>k < length res. ?r ! k = res ! k + (\<Sum>i < n. if i \<le> k \<and> k - i < length b then a ! i * b ! (k - i) else 0)"
    using Suc by simp_all
  have "n + length b \<le> length ?r" using Suc.prems ih(1) by simp
  from inner_fold [OF this, of "a ! n" b] ih
  show ?case by simp
qed

lemma convolve_coef: "coef (convolve a b) k = conv (coef a) (coef b) k"
proof (cases "a = [] \<or> b = []")
  case True
  then show ?thesis by (auto simp: convolve_def coef_def conv_def)
next
  case False
  let ?la = "length a" and ?lb = "length b"
  let ?t = "\<lambda>i. a ! i * b ! (k - i)"
  have pos: "0 < ?la" "0 < ?lb" using False by auto
  have "?la + ?lb \<le> length (replicate (?la + ?lb - 1) (0::real)) + 1" using pos by simp
  from outer_fold [OF this, of a]
  have len: "length (convolve a b) = ?la + ?lb - 1"
    and val: "k < ?la + ?lb - 1 \<Longrightarrow> convolve a b ! k
                = (\<Sum>i < ?la. if i \<le> k \<and> k - i < ?lb then ?t i else 0)"
    using False by (simp_all add: convolve_def)
  have rhs: "conv (coef a) (coef b) k = (\<Sum>i \<le> k. if i < ?la \<and> k - i < ?lb then ?t i else 0)"
    unfolding conv_def by (intro sum.cong) (auto simp: coef_def)
  show ?thesis
  proof (cases "k < ?la + ?lb - 1")
    case True
    have "coef (convolve a b) k = (\<Sum>i < ?la. if i \<le> k \<and> k - i < ?lb then ?t i else 0)"
      using True len val by (simp add: coef_def)
    also have "\<dots> = (\<Sum>i \<in> {i \<in> {..<?la}. i \<le> k \<and> k - i < ?lb}. ?t i)"
      by (rule sum.inter_filter [symmetric]) simp
    also have "{i \<in> {..<?la}. i \<le> k \<and> k - i < ?lb} = {i \<in> {..k}. i < ?la \<and> k - i < ?lb}"
      by auto
    also have "(\<Sum>i \<in> {i \<in> {..k}. i < ?la \<and> k - i < ?lb}. ?t i)
               = (\<Sum>i \<le> k. if i < ?la \<and> k - i < ?lb then ?t i else 0)"
      by (rule sum.inter_filter) simp
    finally show ?thesis using rhs by simp
  next
    case False
    then have "\<not> (i < ?la \<and> k - i < ?lb)" if "i \<le> k" for i using that by auto
    then have "(\<Sum>i \<le> k. if i < ?la \<and> k - i < ?lb then ?t i else 0) = 0"
      by (intro sum.neutral) auto
    then show ?thesis using False len rhs by (simp add: coef_def)
  qed
qed


text \<open>
  The product of the first \<open>n\<close> component polynomials, and the same product leaving
  component \<open>c\<close> out (the \<open>withoutComp\<close> of step 7).
\<close>

definition prodUpto :: "(nat \<Rightarrow> real) list \<Rightarrow> nat \<Rightarrow> nat \<Rightarrow> real" where
  "prodUpto Ps n = foldl (\<lambda>F j. conv F (Ps ! j)) (coef [1]) [0..<n]"

definition prodWithout :: "(nat \<Rightarrow> real) list \<Rightarrow> nat \<Rightarrow> nat \<Rightarrow> nat \<Rightarrow> real" where
  "prodWithout Ps c n = foldl (\<lambda>F j. if j = c then F else conv F (Ps ! j)) (coef [1]) [0..<n]"

lemma prodUpto_Suc: "prodUpto Ps (Suc n) = conv (prodUpto Ps n) (Ps ! n)"
  by (simp add: prodUpto_def)

lemma prodWithout_Suc:
  "prodWithout Ps c (Suc n) = (if n = c then prodWithout Ps c n else conv (prodWithout Ps c n) (Ps ! n))"
  by (simp add: prodWithout_def)

lemma prodWithout_ge: "n \<le> c \<Longrightarrow> prodWithout Ps c n = prodUpto Ps n"
proof (induction n)
  case 0
  then show ?case by (simp add: prodWithout_def prodUpto_def)
next
  case (Suc n)
  then show ?case by (simp add: prodWithout_Suc prodUpto_Suc)
qed

lemma prodWithout_conv: "c < n \<Longrightarrow> conv (Ps ! c) (prodWithout Ps c n) = prodUpto Ps n"
proof (induction n)
  case 0
  then show ?case by simp
next
  case (Suc n)
  show ?case
  proof (cases "c = n")
    case True
    have "conv (Ps ! n) (prodWithout Ps n n) = conv (prodUpto Ps n) (Ps ! n)"
      by (simp only: prodWithout_ge [OF order_refl] conv_comm [of "Ps ! n"])
    then show ?thesis using True by (simp add: prodWithout_Suc prodUpto_Suc)
  next
    case False
    then have c: "c < n" using Suc.prems by simp
    have "conv (Ps ! c) (conv (prodWithout Ps c n) (Ps ! n))
          = conv (conv (Ps ! c) (prodWithout Ps c n)) (Ps ! n)"
      by (simp only: conv_assoc)
    then show ?thesis using False Suc.IH [OF c] by (simp add: prodWithout_Suc prodUpto_Suc)
  qed
qed

lemma deriv_unit: "deriv (coef [1]) k = 0"
  by (simp add: deriv_def coef_def)

lemma deriv_prodUpto:
  "deriv (prodUpto Ps n) k = (\<Sum>c < n. conv (deriv (Ps ! c)) (prodWithout Ps c n) k)"
proof (induction n arbitrary: k)
  case 0
  then show ?case by (simp add: prodUpto_def deriv_unit)
next
  case (Suc n)
  have ih: "deriv (prodUpto Ps n) = (\<lambda>k. \<Sum>c < n. conv (deriv (Ps ! c)) (prodWithout Ps c n) k)"
    using Suc.IH by (intro ext)
  have a: "conv (deriv (prodUpto Ps n)) (Ps ! n) k
           = (\<Sum>c < n. conv (deriv (Ps ! c)) (prodWithout Ps c (Suc n)) k)"
  proof -
    have "conv (deriv (prodUpto Ps n)) (Ps ! n) k
          = (\<Sum>c < n. conv (conv (deriv (Ps ! c)) (prodWithout Ps c n)) (Ps ! n) k)"
      unfolding ih by (rule conv_sum_left)
    also have "\<dots> = (\<Sum>c < n. conv (deriv (Ps ! c)) (prodWithout Ps c (Suc n)) k)"
      by (intro sum.cong) (simp_all add: prodWithout_Suc conv_assoc)
    finally show ?thesis .
  qed
  have b: "conv (prodUpto Ps n) (deriv (Ps ! n)) k
           = conv (deriv (Ps ! n)) (prodWithout Ps n (Suc n)) k"
    by (simp add: prodWithout_Suc prodWithout_ge conv_comm [of "prodUpto Ps n"])
  show ?case
    by (simp add: prodUpto_Suc deriv_conv a b)
qed

lemma total_derivative:
  "real R * conv I (prodUpto Ps m) R
   = conv (deriv I) (prodUpto Ps m) R
     + (\<Sum>c < m. conv (deriv (Ps ! c)) (conv (prodWithout Ps c m) I) R)"
proof -
  have dp: "deriv (prodUpto Ps m) = (\<lambda>k. \<Sum>c < m. conv (deriv (Ps ! c)) (prodWithout Ps c m) k)"
    using deriv_prodUpto by (intro ext)
  have "real R * conv I (prodUpto Ps m) R = deriv (conv I (prodUpto Ps m)) R"
    by (simp add: deriv_def)
  also have "\<dots> = conv (deriv I) (prodUpto Ps m) R + conv I (deriv (prodUpto Ps m)) R"
    by (rule deriv_conv)
  also have "conv I (deriv (prodUpto Ps m)) R
             = (\<Sum>c < m. conv I (conv (deriv (Ps ! c)) (prodWithout Ps c m)) R)"
    unfolding dp by (rule conv_sum_right)
  also have "\<dots> = (\<Sum>c < m. conv (deriv (Ps ! c)) (conv (prodWithout Ps c m) I) R)"
  proof (rule sum.cong [OF refl])
    fix c
    have "conv I (conv (deriv (Ps ! c)) (prodWithout Ps c m))
          = conv (deriv (Ps ! c)) (conv I (prodWithout Ps c m))" by (rule conv_left_comm)
    also have "\<dots> = conv (deriv (Ps ! c)) (conv (prodWithout Ps c m) I)"
      by (simp only: conv_comm [of I])
    finally show "conv I (conv (deriv (Ps ! c)) (prodWithout Ps c m)) R
                  = conv (deriv (Ps ! c)) (conv (prodWithout Ps c m) I) R" by simp
  qed
  finally show ?thesis .
qed

lemma total_without:
  assumes "c < m"
  shows "conv (Ps ! c) (conv (prodWithout Ps c m) I) = conv I (prodUpto Ps m)"
proof -
  have "conv (Ps ! c) (conv (prodWithout Ps c m) I) = conv (conv (Ps ! c) (prodWithout Ps c m)) I"
    by (simp only: conv_assoc)
  also have "\<dots> = conv (prodUpto Ps m) I" by (simp only: prodWithout_conv [OF assms])
  finally show ?thesis by (simp only: conv_comm [of I])
qed

lemma prodUpto_nonneg:
  assumes "\<forall>c < n. \<forall>k. 0 \<le> (Ps ! c) k"
  shows "0 \<le> prodUpto Ps n k"
  using assms
proof (induction n arbitrary: k)
  case 0
  then show ?case by (simp add: prodUpto_def coef_def)
next
  case (Suc n)
  then show ?case by (simp add: prodUpto_Suc conv_nonneg)
qed

lemma prodWithout_nonneg:
  assumes "\<forall>c < n. \<forall>k. 0 \<le> (Ps ! c) k"
  shows "0 \<le> prodWithout Ps c n k"
  using assms
proof (induction n arbitrary: k)
  case 0
  then show ?case by (simp add: prodWithout_def coef_def)
next
  case (Suc n)
  then have "0 \<le> prodWithout Ps c n k" "0 \<le> conv (prodWithout Ps c n) (Ps ! n) k"
    by (simp_all add: conv_nonneg)
  then show ?case by (auto simp: prodWithout_Suc)
qed

text \<open>The vectors \<open>solve\<close> builds in steps 6 to 8, as coefficient sequences.\<close>

lemma coef_convolve: "coef (convolve a b) = conv (coef a) (coef b)"
  using convolve_coef by (intro ext)

lemma foldl_index: "foldl f a xs = foldl (\<lambda>a j. f a (xs ! j)) a [0..<length xs]"
proof -
  have "foldl (\<lambda>a j. f a (xs ! j)) a [0..<length xs] = foldl f a (map ((!) xs) [0..<length xs])"
    by (simp add: foldl_map)
  then show ?thesis by (simp add: map_nth)
qed

definition polysOf :: "ComponentResult list \<Rightarrow> (nat \<Rightarrow> real) list" where
  "polysOf crs = map (\<lambda>cr. coef (counts_cr cr)) crs"

lemma compProd_upto:
  assumes "\<forall>cr \<in> set crs. counts_cr cr \<noteq> []" "n \<le> length crs"
  shows "coef (foldl (\<lambda>compProd j. if counts_cr (crs ! j) = [] then compProd
                                     else convolve compProd (counts_cr (crs ! j))) [1] [0..<n])
         = prodUpto (polysOf crs) n"
  using assms(2)
proof (induction n)
  case 0
  then show ?case by (simp add: prodUpto_def)
next
  case (Suc n)
  have "counts_cr (crs ! n) \<noteq> []" using assms(1) Suc.prems by simp
  then show ?case using Suc by (simp add: prodUpto_Suc coef_convolve polysOf_def)
qed

lemma coef_compProdOf:
  assumes "\<forall>cr \<in> set crs. counts_cr cr \<noteq> []"
  shows "coef (compProdOf crs) = prodUpto (polysOf crs) (length crs)"
proof -
  have "compProdOf crs
        = foldl (\<lambda>compProd j. if counts_cr (crs ! j) = [] then compProd
                               else convolve compProd (counts_cr (crs ! j))) [1] [0..<length crs]"
    unfolding compProdOf_def by (rule foldl_index)
  then show ?thesis using compProd_upto [OF assms order_refl] by simp
qed

lemma without_upto:
  assumes "\<forall>cr \<in> set crs. counts_cr cr \<noteq> []" "n \<le> length crs"
  shows "coef (foldl (\<lambda>withoutComp j. if j = ci \<or> counts_cr (crs ! j) = [] then withoutComp
                                        else convolve withoutComp (counts_cr (crs ! j))) [1] [0..<n])
         = prodWithout (polysOf crs) ci n"
  using assms(2)
proof (induction n)
  case 0
  then show ?case by (simp add: prodWithout_def)
next
  case (Suc n)
  have "counts_cr (crs ! n) \<noteq> []" using assms(1) Suc.prems by simp
  moreover have "polysOf crs ! n = coef (counts_cr (crs ! n))" using Suc.prems by (simp add: polysOf_def)
  ultimately show ?case using Suc by (auto simp: prodWithout_Suc coef_convolve)
qed

lemma coef_withoutCompOf:
  assumes "\<forall>cr \<in> set crs. counts_cr cr \<noteq> []"
  shows "coef (withoutCompOf crs ci) = prodWithout (polysOf crs) ci (length crs)"
  using without_upto [OF assms order_refl] by (simp add: withoutCompOf_def)

lemma coef_interiorPoly: "coef (interiorPolyOf n) k = real (n choose k)"
proof (cases "k \<le> n")
  case True
  then have "interiorPolyOf n ! k = binomial (int n) (int k)"
    unfolding interiorPolyOf_def by (simp del: upt_Suc)
  moreover have "length (interiorPolyOf n) = n + 1" by (simp add: interiorPolyOf_def)
  ultimately show ?thesis using True by (simp add: coef_def binomial_choose)
next
  case False
  then show ?thesis by (simp add: coef_def interiorPolyOf_def binomial_eq_0)
qed

lemma totalWaysOf_coef:
  assumes "0 \<le> R"
  shows "totalWaysOf R tp = coef tp (nat R)"
  using assms by (auto simp: totalWaysOf_def coef_def)

lemma takeWhile_upt: "takeWhile (\<lambda>k. k < b) [a..<n] = [a..<min n (max a b)]"
proof (induction "n - a" arbitrary: a)
  case 0
  then show ?case by simp
next
  case (Suc d)
  then have an: "a < n" by simp
  then have u: "[a..<n] = a # [Suc a..<n]" by (rule upt_conv_Cons)
  show ?case
  proof (cases "a < b")
    case True
    have "d = n - Suc a" using Suc.hyps(2) by simp
    from Suc.hyps(1) [OF this]
    have ih: "takeWhile (\<lambda>k. k < b) [Suc a..<n] = [Suc a..<min n (max (Suc a) b)]" .
    have m: "max (Suc a) b = b" "max a b = b" using True by simp_all
    have "a < min n b" using an True by simp
    then have "[a..<min n b] = a # [Suc a..<min n b]" by (rule upt_conv_Cons)
    then show ?thesis using True u ih m by simp
  next
    case False
    then have "max a b = a" by simp
    then show ?thesis using False u an by simp
  qed
qed

lemma budgetRange_eq:
  assumes "0 \<le> R"
  shows "budgetRange R n = [0..<min (n + 1) (nat R + 1)]"
proof -
  have "(\<lambda>k. int k \<le> R) = (\<lambda>k. k < nat R + 1)" using assms by auto
  then show ?thesis using takeWhile_upt [of "nat R + 1" 0 "n + 1"] by (simp add: budgetRange_def)
qed

lemma numeratorOf_conv:
  assumes R: "0 \<le> R" and len: "length row = n + 1"
  shows "numeratorOf row W R (budgetRange R n) = conv (coef row) (coef W) (nat R)"
proof -
  let ?t = "\<lambda>k. if 0 \<le> R - int k \<and> R - int k < int (length W) then row ! k * W ! nat (R - int k) else 0"
  let ?q = "min (n + 1) (nat R + 1)"
  have t: "coef row k * coef W (nat R - k) = (if k < n + 1 then ?t k else 0)" if "k \<le> nat R" for k
  proof -
    have "nat (R - int k) = nat R - k" using that R by simp
    moreover have "R - int k < int (length W) \<longleftrightarrow> nat R - k < length W" using that R by auto
    moreover have "0 \<le> R - int k" using that R by simp
    ultimately show ?thesis using len by (simp add: coef_def)
  qed
  have "numeratorOf row W R (budgetRange R n) = sum_list (map ?t [0..<?q])"
    by (simp add: numeratorOf_def budgetRange_eq [OF R])
  also have "\<dots> = (\<Sum>k \<in> {0..<?q}. ?t k)" by (simp add: interv_sum_list_conv_sum_set_nat)
  also have "\<dots> = (\<Sum>k \<in> {k \<in> {..nat R}. k < n + 1}. ?t k)"
    by (rule sum.cong) auto
  also have "\<dots> = (\<Sum>k \<le> nat R. if k < n + 1 then ?t k else 0)"
    by (rule sum.inter_filter) simp
  also have "\<dots> = (\<Sum>k \<le> nat R. coef row k * coef W (nat R - k))"
    using t by (intro sum.cong) auto
  finally show ?thesis by (simp add: conv_def)
qed

lemma foldl_add_if:
  fixes a :: real
  shows "foldl (\<lambda>acc m. if c m then acc + t m else acc) a ms
         = a + sum_list (map (\<lambda>m. if c m then t m else 0) ms)"
  by (induction ms arbitrary: a) auto

lemma interiorNumerator_sum:
  assumes R: "0 \<le> R" and n: "0 < n"
  shows "interiorNumeratorOf n R cp
         = (\<Sum>m \<in> {1..<min (n + 1) (nat R + 1)}. real ((n - 1) choose (m - 1)) * coef cp (nat R - m))"
proof -
  let ?c = "\<lambda>m. 0 \<le> R - int m \<and> R - int m < int (length cp)"
  let ?t = "\<lambda>m. binomial (int n - 1) (int m - 1) * cp ! nat (R - int m)"
  let ?q = "min (n + 1) (nat R + 1)"
  have tw: "takeWhile (\<lambda>m. int m \<le> R) [1..<n + 1] = [1..<?q]"
  proof -
    have "(\<lambda>m. int m \<le> R) = (\<lambda>m. m < nat R + 1)" using R by auto
    then show ?thesis using takeWhile_upt [of "nat R + 1" 1 "n + 1"] by (simp add: max_def)
  qed
  have "interiorNumeratorOf n R cp = foldl (\<lambda>acc m. if ?c m then acc + ?t m else acc) 0 [1..<?q]"
    by (simp only: interiorNumeratorOf_def tw Let_def)
  also have "\<dots> = sum_list (map (\<lambda>m. if ?c m then ?t m else 0) [1..<?q])"
    by (simp add: foldl_add_if)
  also have "\<dots> = (\<Sum>m \<in> {1..<?q}. if ?c m then ?t m else 0)"
    by (simp only: interv_sum_list_conv_sum_set_nat set_upt)
  also have "\<dots> = (\<Sum>m \<in> {1..<?q}. real ((n - 1) choose (m - 1)) * coef cp (nat R - m))"
  proof (rule sum.cong [OF refl])
    fix m assume m: "m \<in> {1..<?q}"
    then have m1: "1 \<le> m" "m \<le> nat R" by auto
    have b: "binomial (int n - 1) (int m - 1) = real ((n - 1) choose (m - 1))"
    proof -
      have "int n - 1 = int (n - 1)" "int m - 1 = int (m - 1)" using n m1 by auto
      then show ?thesis by (simp only: binomial_choose)
    qed
    have "nat (R - int m) = nat R - m" using m1 R by simp
    moreover have "R - int m < int (length cp) \<longleftrightarrow> nat R - m < length cp" using m1 R by auto
    moreover have "0 \<le> R - int m" using m1 R by simp
    ultimately show "(if ?c m then ?t m else 0) = real ((n - 1) choose (m - 1)) * coef cp (nat R - m)"
      by (simp add: coef_def b)
  qed
  finally show ?thesis .
qed

lemma interiorNumerator_deriv:
  assumes R: "0 \<le> R" and n: "0 < n"
  shows "real n * interiorNumeratorOf n R cp
         = conv (deriv (coef (interiorPolyOf n))) (coef cp) (nat R)"
proof -
  let ?q = "min (n + 1) (nat R + 1)"
  let ?u = "\<lambda>m. deriv (coef (interiorPolyOf n)) m * coef cp (nat R - m)"
  have d: "deriv (coef (interiorPolyOf n)) m = real m * real (n choose m)" for m
    by (simp add: deriv_def coef_interiorPoly)
  have "conv (deriv (coef (interiorPolyOf n))) (coef cp) (nat R) = (\<Sum>m \<in> {..nat R}. ?u m)"
    by (simp add: conv_def)
  also have "\<dots> = (\<Sum>m \<in> {1..<?q}. ?u m)"
  proof (rule sum.mono_neutral_right)
    show "finite {..nat R}" by simp
    show "{1..<?q} \<subseteq> {..nat R}" by auto
    show "\<forall>m \<in> {..nat R} - {1..<?q}. ?u m = 0"
    proof
      fix m assume "m \<in> {..nat R} - {1..<?q}"
      then have "m = 0 \<or> n < m" by auto
      then show "?u m = 0" by (auto simp: d binomial_eq_0)
    qed
  qed
  also have "\<dots> = (\<Sum>m \<in> {1..<?q}. real n * (real ((n - 1) choose (m - 1)) * coef cp (nat R - m)))"
  proof (rule sum.cong [OF refl])
    fix m assume "m \<in> {1..<?q}"
    then have "0 < m" by simp
    then have "m * (n choose m) = n * ((n - 1) choose (m - 1))" by (rule times_binomial_minus1_eq)
    then have "real m * real (n choose m) = real n * real ((n - 1) choose (m - 1))"
      by (metis of_nat_mult)
    then show "?u m = real n * (real ((n - 1) choose (m - 1)) * coef cp (nat R - m))"
      by (simp add: d)
  qed
  also have "\<dots> = real n * interiorNumeratorOf n R cp"
    by (simp only: interiorNumerator_sum [OF R n] sum_distrib_left)
  finally show ?thesis by simp
qed

lemma coef_nonneg: "(\<forall>k < length a. 0 \<le> a ! k) \<Longrightarrow> 0 \<le> coef a k"
  by (simp add: coef_def)

lemma cr_ok_coef:
  assumes "cr_ok cr"
  shows "0 \<le> coef (counts_cr cr) k"
    and "li < size_cr cr \<Longrightarrow> 0 \<le> coef (badCounts cr ! li) k"
    and "li < size_cr cr \<Longrightarrow> coef (badCounts cr ! li) k \<le> coef (counts_cr cr) k"
    and "(\<Sum>li < size_cr cr. coef (badCounts cr ! li) k) = deriv (coef (counts_cr cr)) k"
proof -
  have l: "length (counts_cr cr) = size_cr cr + 1" "\<forall>i < size_cr cr. length (badCounts cr ! i) = size_cr cr + 1"
    using assms by (simp_all add: cr_ok_def)
  show "0 \<le> coef (counts_cr cr) k" using assms l by (simp add: coef_def cr_ok_def)
  show "li < size_cr cr \<Longrightarrow> 0 \<le> coef (badCounts cr ! li) k" using assms l by (simp add: coef_def cr_ok_def)
  show "li < size_cr cr \<Longrightarrow> coef (badCounts cr ! li) k \<le> coef (counts_cr cr) k"
    using assms l by (simp add: coef_def cr_ok_def)
  show "(\<Sum>li < size_cr cr. coef (badCounts cr ! li) k) = deriv (coef (counts_cr cr)) k"
  proof (cases "k \<le> size_cr cr")
    case True
    then have "(\<Sum>li < size_cr cr. coef (badCounts cr ! li) k) = (\<Sum>li < size_cr cr. badCounts cr ! li ! k)"
      using l by (intro sum.cong) (auto simp: coef_def)
    then show ?thesis using assms True l by (simp add: deriv_def coef_def cr_ok_def)
  next
    case False
    then have "(\<Sum>li < size_cr cr. coef (badCounts cr ! li) k) = 0"
      using l by (intro sum.neutral) (auto simp: coef_def)
    then show ?thesis using False l by (simp add: deriv_def coef_def)
  qed
qed

text \<open>
  The values step 7 writes: each lies in \<open>[0,1]\<close>, so that the final clamp leaves it
  alone, and the values of one component add up to a term of the product rule.
\<close>

lemma cellWrites_values:
  assumes R: "0 \<le> R" and ok: "cr_ok cr"
  shows "map snd (cellWrites cr fr W R tw [0..<size_cr cr])
         = map (\<lambda>li. conv (coef (badCounts cr ! li)) (coef W) (nat R) / tw) [0..<size_cr cr]"
proof -
  have "numeratorOf (badCounts cr ! li) W R (budgetRange R (size_cr cr))
        = conv (coef (badCounts cr ! li)) (coef W) (nat R)" if "li < size_cr cr" for li
  proof -
    have "length (badCounts cr ! li) = size_cr cr + 1" using ok that by (simp add: cr_ok_def)
    then show ?thesis by (rule numeratorOf_conv [OF R])
  qed
  then show ?thesis by (simp add: cellWrites_def comp_def)
qed

lemma cellWrites_sum:
  assumes R: "0 \<le> R" and ok: "cr_ok cr"
  shows "sum_list (map snd (cellWrites cr fr W R tw [0..<size_cr cr]))
         = conv (deriv (coef (counts_cr cr))) (coef W) (nat R) / tw"
proof -
  have "sum_list (map snd (cellWrites cr fr W R tw [0..<size_cr cr]))
        = (\<Sum>li < size_cr cr. conv (coef (badCounts cr ! li)) (coef W) (nat R) / tw)"
    by (simp only: cellWrites_values [OF R ok] interv_sum_list_conv_sum_set_nat set_upt atLeast0LessThan)
  also have "\<dots> = (\<Sum>li < size_cr cr. conv (coef (badCounts cr ! li)) (coef W) (nat R)) / tw"
    by (simp only: sum_divide_distrib)
  also have "(\<Sum>li < size_cr cr. conv (coef (badCounts cr ! li)) (coef W) (nat R))
             = conv (\<lambda>k. \<Sum>li < size_cr cr. coef (badCounts cr ! li) k) (coef W) (nat R)"
    by (rule conv_sum_left [symmetric])
  also have "(\<lambda>k. \<Sum>li < size_cr cr. coef (badCounts cr ! li) k) = deriv (coef (counts_cr cr))"
    using cr_ok_coef(4) [OF ok] by (intro ext)
  finally show ?thesis .
qed

lemma frontierWrites_sum_gen:
  assumes R: "0 \<le> R" and ok: "\<forall>cr \<in> set crs. cr_ok cr" and cix: "\<forall>ci \<in> set cix. ci < length crs"
  shows "sum_list (map snd (frontierWrites crs fr ip R tw cix))
         = sum_list (map (\<lambda>c. conv (deriv (polysOf crs ! c))
                                 (conv (prodWithout (polysOf crs) c (length crs)) (coef ip)) (nat R) / tw) cix)"
  using cix
proof (induction cix)
  case Nil
  then show ?case by (simp add: frontierWrites_def)
next
  case (Cons ci cix)
  have ci: "ci < length crs" using Cons.prems by simp
  then have okc: "cr_ok (crs ! ci)" using ok by simp
  then have ne: "counts_cr (crs ! ci) \<noteq> []" by (auto simp: cr_ok_def)
  have nes: "\<forall>cr \<in> set crs. counts_cr cr \<noteq> []" using ok by (auto simp: cr_ok_def)
  have w: "coef (convolve (withoutCompOf crs ci) ip)
           = conv (prodWithout (polysOf crs) ci (length crs)) (coef ip)"
    by (simp only: coef_convolve coef_withoutCompOf [OF nes])
  have p: "polysOf crs ! ci = coef (counts_cr (crs ! ci))" using ci by (simp add: polysOf_def)
  have ih: "sum_list (map snd (frontierWrites crs fr ip R tw cix))
         = sum_list (map (\<lambda>c. conv (deriv (polysOf crs ! c))
                                 (conv (prodWithout (polysOf crs) c (length crs)) (coef ip)) (nat R) / tw) cix)"
    using Cons by simp
  have "frontierWrites crs fr ip R tw (ci # cix)
        = cellWrites (crs ! ci) fr (convolve (withoutCompOf crs ci) ip) R tw [0..<size_cr (crs ! ci)]
          @ frontierWrites crs fr ip R tw cix"
    using ne by (simp add: frontierWrites_def)
  then show ?case
    by (simp add: ih cellWrites_sum [OF R okc] w p)
qed

lemma frontierWrites_sum:
  assumes R: "0 \<le> R" and ok: "\<forall>cr \<in> set crs. cr_ok cr"
  shows "sum_list (map snd (frontierWrites crs fr ip R tw [0..<length crs]))
         = (\<Sum>c < length crs. conv (deriv (polysOf crs ! c))
                                 (conv (prodWithout (polysOf crs) c (length crs)) (coef ip)) (nat R)) / tw"
proof -
  have "\<forall>ci \<in> set [0..<length crs]. ci < length crs" by simp
  from frontierWrites_sum_gen [OF R ok this, of fr ip tw]
  show ?thesis
    by (simp only: interv_sum_list_conv_sum_set_nat set_upt atLeast0LessThan sum_divide_distrib)
qed

lemma frontierWrites_range:
  assumes R: "0 \<le> R" and ok: "\<forall>cr \<in> set crs. cr_ok cr"
    and ip: "\<forall>k. 0 \<le> coef ip k"
    and tw: "tw = conv (coef ip) (prodUpto (polysOf crs) (length crs)) (nat R)" "0 < tw"
    and w: "w \<in> set (frontierWrites crs fr ip R tw [0..<length crs])"
  shows "0 \<le> snd w \<and> snd w \<le> 1"
proof -
  let ?Ps = "polysOf crs" and ?m = "length crs"
  from w obtain ci where ci: "ci < ?m"
    and wc: "w \<in> set (cellWrites (crs ! ci) fr (convolve (withoutCompOf crs ci) ip) R tw [0..<size_cr (crs ! ci)])"
    by (auto simp: frontierWrites_def split: if_splits)
  let ?cr = "crs ! ci"
  let ?W = "convolve (withoutCompOf crs ci) ip"
  have okc: "cr_ok ?cr" using ok ci by simp
  have nes: "\<forall>cr \<in> set crs. counts_cr cr \<noteq> []" using ok by (auto simp: cr_ok_def)
  have cw: "coef ?W = conv (prodWithout ?Ps ci ?m) (coef ip)"
    by (simp only: coef_convolve coef_withoutCompOf [OF nes])
  have p: "?Ps ! c = coef (counts_cr (crs ! c))" if "c < ?m" for c using that by (simp add: polysOf_def)
  have pn: "\<forall>c < ?m. \<forall>k. 0 \<le> (?Ps ! c) k"
    using p cr_ok_coef(1) ok by simp
  have wn: "0 \<le> coef ?W k" for k
    unfolding cw using prodWithout_nonneg [OF pn] ip by (intro conv_nonneg) auto
  have "snd w \<in> set (map snd (cellWrites ?cr fr ?W R tw [0..<size_cr ?cr]))" using wc by simp
  then obtain li where li: "li < size_cr ?cr"
    and v: "snd w = conv (coef (badCounts ?cr ! li)) (coef ?W) (nat R) / tw"
    unfolding cellWrites_values [OF R okc] by auto
  have lo: "0 \<le> conv (coef (badCounts ?cr ! li)) (coef ?W) (nat R)"
    using cr_ok_coef(2) [OF okc li] wn by (intro conv_nonneg) auto
  have "conv (coef (badCounts ?cr ! li)) (coef ?W) (nat R) \<le> conv (coef (counts_cr ?cr)) (coef ?W) (nat R)"
    using cr_ok_coef(3) [OF okc li] wn by (intro conv_mono_left) auto
  also have "\<dots> = conv (?Ps ! ci) (conv (prodWithout ?Ps ci ?m) (coef ip)) (nat R)"
    by (simp only: cw p [OF ci])
  also have "\<dots> = tw" by (simp only: total_without [OF ci] tw(1))
  finally have hi: "conv (coef (badCounts ?cr ! li)) (coef ?W) (nat R) \<le> tw" .
  show ?thesis using lo hi tw(2) by (simp add: v)
qed

lemma interior_range:
  assumes R: "0 \<le> R" and n: "0 < n" and cp: "\<forall>k. 0 \<le> coef cp k"
    and tw: "tw = conv (coef (interiorPolyOf n)) (coef cp) (nat R)" "0 < tw"
  shows "0 \<le> interiorNumeratorOf n R cp / tw \<and> interiorNumeratorOf n R cp / tw \<le> 1"
proof -
  let ?I = "coef (interiorPolyOf n)"
  have e: "real n * interiorNumeratorOf n R cp = conv (deriv ?I) (coef cp) (nat R)"
    by (rule interiorNumerator_deriv [OF R n])
  have d0: "0 \<le> deriv ?I k" for k by (simp add: deriv_def coef_interiorPoly)
  have d1: "deriv ?I k \<le> real n * ?I k" for k
  proof (cases "k \<le> n")
    case True
    then have "real k * real (n choose k) \<le> real n * real (n choose k)"
      by (intro mult_right_mono) auto
    then show ?thesis by (simp add: deriv_def coef_interiorPoly)
  next
    case False
    then show ?thesis by (simp add: deriv_def coef_interiorPoly binomial_eq_0)
  qed
  have "0 \<le> real n * interiorNumeratorOf n R cp"
    unfolding e using d0 cp by (intro conv_nonneg) auto
  then have lo: "0 \<le> interiorNumeratorOf n R cp" using n by (simp add: zero_le_mult_iff)
  have "real n * interiorNumeratorOf n R cp \<le> conv (\<lambda>k. real n * ?I k) (coef cp) (nat R)"
    unfolding e using d1 cp by (intro conv_mono_left) auto
  also have "\<dots> = real n * tw"
    by (simp add: conv_def tw(1) sum_distrib_left mult.assoc)
  finally have "interiorNumeratorOf n R cp \<le> tw" using n by simp
  then show ?thesis using lo tw(2) by simp
qed

lemma sum_list_mset_cong:
  fixes f :: "nat \<Rightarrow> real"
  assumes "mset xs = mset ys"
  shows "sum_list (map f xs) = sum_list (map f ys)"
proof -
  have "sum_list (map f xs) = sum_mset (mset (map f xs))" by (simp only: sum_mset_sum_list)
  also have "\<dots> = sum_mset (image_mset f (mset xs))" by simp
  also have "\<dots> = sum_mset (image_mset f (mset ys))" by (simp only: assms)
  also have "\<dots> = sum_mset (mset (map f ys))" by simp
  also have "\<dots> = sum_list (map f ys)" by (simp only: sum_mset_sum_list)
  finally show ?thesis .
qed

lemma hidden_split:
  assumes ok: "combined_ok c R cb" and d: "distinct (unknownCells c)"
  shows "mset (unknownCells c) = mset (interiorOf cb) + mset (frontierOf cb)"
    and "set (interiorOf cb) \<inter> set (frontierOf cb) = {}"
    and "distinct (frontierOf cb)"
proof -
  let ?U = "unknownCells c"
  let ?fs = "buildFrontierSet ?U (constraintCells c)"
  have fr: "frontierOf cb = sort ?fs" and it: "interiorOf cb = filter (\<lambda>idx. idx \<notin> set ?fs) ?U"
    using ok by (simp_all add: combined_ok_def)
  have sub: "set ?fs \<subseteq> set ?U" by (auto simp: buildFrontierSet_set)
  have "mset ?fs = mset (filter (\<lambda>idx. idx \<in> set ?fs) ?U)"
  proof (rule iffD1 [OF set_eq_iff_mset_eq_distinct])
    show "distinct ?fs" by (rule buildFrontierSet_set(2))
    show "distinct (filter (\<lambda>idx. idx \<in> set ?fs) ?U)" using d by simp
    show "set ?fs = set (filter (\<lambda>idx. idx \<in> set ?fs) ?U)" using sub by auto
  qed
  then have mf: "mset (frontierOf cb) = filter_mset (\<lambda>idx. idx \<in> set ?fs) (mset ?U)"
    by (simp add: fr)
  have mi: "mset (interiorOf cb) = filter_mset (\<lambda>idx. \<not> idx \<in> set ?fs) (mset ?U)"
    by (simp add: it)
  show "mset ?U = mset (interiorOf cb) + mset (frontierOf cb)"
    unfolding mf mi using multiset_partition [of "mset ?U" "\<lambda>idx. idx \<in> set ?fs"]
    by (simp add: add.commute)
  show "set (interiorOf cb) \<inter> set (frontierOf cb) = {}" by (auto simp: fr it)
  show "distinct (frontierOf cb)" using buildFrontierSet_set(2) [of ?U "constraintCells c"] by (simp add: fr)
qed

lemma finalProbs_sum:
  assumes ok: "combined_ok c R cb" and R: "0 \<le> R" and pos: "0 < totalWays cb"
    and d: "distinct (unknownCells c)" and b: "\<forall>i \<in> set (unknownCells c). i < TOTAL_CELLS"
    and lp: "length (probs c) = TOTAL_CELLS"
  shows "sum_list (map ((!) (finalProbs c R cb)) (unknownCells c)) = real_of_int R"
proof -
  let ?U = "unknownCells c" and ?I = "interiorOf cb" and ?fr = "frontierOf cb"
  let ?crs = "resultsOf cb" and ?ip = "interiorPoly cb" and ?tw = "totalWays cb"
  let ?nI = "length ?I"
  let ?Ps = "polysOf ?crs" and ?m = "length ?crs"
  let ?ws = "frontierWrites ?crs ?fr ?ip R ?tw [0..<?m]"
  let ?pI = "interiorNumeratorOf ?nI R (compProd cb) / ?tw"
  let ?base = "applyWrites ?ws (probs c)"
  let ?fin = "finalProbs c R cb"
  have okc: "\<forall>cr \<in> set ?crs. cr_ok cr" and pc: "probsOf cb = probs c"
    and ipd: "?ip = interiorPolyOf ?nI" and cpd: "compProd cb = compProdOf ?crs"
    and twd: "?tw = totalWaysOf R (convolve ?ip (compProd cb))"
    using ok by (simp_all add: combined_ok_def)
  have nes: "\<forall>cr \<in> set ?crs. counts_cr cr \<noteq> []" using okc by (auto simp: cr_ok_def)
  have ccp: "coef (compProd cb) = prodUpto ?Ps ?m" by (simp only: cpd coef_compProdOf [OF nes])
  have tw: "?tw = conv (coef ?ip) (prodUpto ?Ps ?m) (nat R)"
    by (simp only: twd totalWaysOf_coef [OF R] coef_convolve ccp)
  have ipn: "\<forall>k. 0 \<le> coef ?ip k" by (simp add: ipd coef_interiorPoly)
  have p: "?Ps ! c = coef (counts_cr (?crs ! c))" if "c < ?m" for c using that by (simp add: polysOf_def)
  have pn: "\<forall>c < ?m. \<forall>k. 0 \<le> (?Ps ! c) k" using p cr_ok_coef(1) okc by simp
  have cpn: "\<forall>k. 0 \<le> coef (compProd cb) k" unfolding ccp using prodUpto_nonneg [OF pn] by simp
  have fin: "?fin = clampProbs (assignAll ?I ?pI ?base)"
    using pos pc by (simp add: finalProbs_def)
  have lb: "length ?base = TOTAL_CELLS" using lp by (simp add: applyWrites_length)
  have la: "length (assignAll ?I ?pI ?base) = TOTAL_CELLS"
    using assignAll_nth [of ?I ?pI ?base] lb by simp
  have val: "?fin ! j = clamp01 (if j \<in> set ?I then ?pI else ?base ! j)" if "j < TOTAL_CELLS" for j
    using that assignAll_nth [of ?I ?pI ?base] la lb by (simp add: fin clampProbs_nth(2))
  from hidden_split [OF ok d]
  have ms: "mset ?U = mset ?I + mset ?fr" and dj: "set ?I \<inter> set ?fr = {}" and dfr: "distinct ?fr"
    by blast+
  have mw: "mset (map fst ?ws) = mset ?fr" by (rule combined_writes [OF ok])
  have dw: "distinct (map fst ?ws)" using mw dfr by (metis mset_eq_imp_distinct_iff)
  have sw: "set (map fst ?ws) = set ?fr" using mw by (rule mset_eq_setD)
  have subI: "set ?I \<subseteq> set ?U" and subF: "set ?fr \<subseteq> set ?U"
    using ms by (metis mset_append set_mset_mset set_append Un_upper1, metis mset_append set_mset_mset set_append Un_upper2)
  have vI: "?fin ! j = ?pI" if "j \<in> set ?I" for j
  proof -
    have j: "j < TOTAL_CELLS" using that subI b by auto
    have nI: "0 < ?nI" using that by (cases ?I) auto
    have "?tw = conv (coef (interiorPolyOf ?nI)) (coef (compProd cb)) (nat R)"
      using tw ipd ccp by simp
    from interior_range [OF R nI cpn this pos]
    show ?thesis using val [OF j] that by (simp add: clamp01_def)
  qed
  have vF: "?fin ! fst w = snd w" if "w \<in> set ?ws" for w
  proof -
    have f: "fst w \<in> set ?fr" using that sw by auto
    then have j: "fst w < TOTAL_CELLS" and ni: "fst w \<notin> set ?I" using subF b dj by auto
    have "distinct (map fst (rev ?ws))" using dw by (simp add: rev_map [symmetric])
    moreover have "(fst w, snd w) \<in> set (rev ?ws)" using that by simp
    ultimately have "map_of (rev ?ws) (fst w) = Some (snd w)" by (rule map_of_is_SomeI)
    then have "?base ! fst w = snd w" using j lp by (simp add: applyWrites_nth)
    moreover have "0 \<le> snd w \<and> snd w \<le> 1"
      by (rule frontierWrites_range [OF R okc ipn tw pos that])
    ultimately show ?thesis using val [OF j] ni by (simp add: clamp01_def)
  qed
  have "sum_list (map ((!) ?fin) ?U) = sum_list (map ((!) ?fin) (?I @ ?fr))"
    by (rule sum_list_mset_cong) (simp add: ms)
  also have "\<dots> = sum_list (map ((!) ?fin) ?I) + sum_list (map ((!) ?fin) ?fr)" by simp
  also have "sum_list (map ((!) ?fin) ?fr) = sum_list (map ((!) ?fin) (map fst ?ws))"
    by (rule sum_list_mset_cong) (simp only: mw)
  also have "\<dots> = sum_list (map snd ?ws)"
  proof -
    have "map (\<lambda>w. ?fin ! fst w) ?ws = map snd ?ws" using vF by (intro map_cong) auto
    then have "map ((!) ?fin) (map fst ?ws) = map snd ?ws" by (simp add: comp_def)
    then show ?thesis by (rule arg_cong)
  qed
  also have "sum_list (map ((!) ?fin) ?I) = real ?nI * ?pI"
  proof -
    have "map ((!) ?fin) ?I = map (\<lambda>j. ?pI) ?I" using vI by (intro map_cong) auto
    then have "sum_list (map ((!) ?fin) ?I) = sum_list (map (\<lambda>j. ?pI) ?I)" by (rule arg_cong)
    then show ?thesis by (simp add: sum_list_triv)
  qed
  also have "real ?nI * ?pI = conv (deriv (coef ?ip)) (prodUpto ?Ps ?m) (nat R) / ?tw"
  proof (cases "?nI = 0")
    case True
    have "deriv (coef (interiorPolyOf 0)) k = 0" for k
      by (cases k) (simp_all add: deriv_def coef_interiorPoly)
    then have "conv (deriv (coef (interiorPolyOf 0))) g k = 0" for g k by (simp add: conv_def)
    then show ?thesis using True ipd by simp
  next
    case False
    then have nI: "0 < ?nI" by simp
    have "real ?nI * ?pI = (real ?nI * interiorNumeratorOf ?nI R (compProd cb)) / ?tw" by simp
    also have "\<dots> = conv (deriv (coef (interiorPolyOf ?nI))) (coef (compProd cb)) (nat R) / ?tw"
      by (simp only: interiorNumerator_deriv [OF R nI])
    finally show ?thesis by (simp only: ccp ipd [symmetric])
  qed
  also have "sum_list (map snd ?ws)
             = (\<Sum>c < ?m. conv (deriv (?Ps ! c)) (conv (prodWithout ?Ps c ?m) (coef ?ip)) (nat R)) / ?tw"
    by (rule frontierWrites_sum [OF R okc])
  finally have "sum_list (map ((!) ?fin) ?U)
      = (conv (deriv (coef ?ip)) (prodUpto ?Ps ?m) (nat R)
         + (\<Sum>c < ?m. conv (deriv (?Ps ! c)) (conv (prodWithout ?Ps c ?m) (coef ?ip)) (nat R))) / ?tw"
    by (simp only: add_divide_distrib)
  also have "\<dots> = real (nat R) * conv (coef ?ip) (prodUpto ?Ps ?m) (nat R) / ?tw"
    by (simp only: total_derivative [symmetric])
  also have "\<dots> = real (nat R)" using pos tw by simp
  finally show ?thesis using R by simp
qed

text \<open>The hidden cells of a grid, and a board with one clue in a corner.\<close>

definition hiddenCells :: "CellContent list \<Rightarrow> nat list" where
  "hiddenCells g = filter (\<lambda>i. g ! i = Undug) [0..<TOTAL_CELLS]"

definition cornerBoard :: ThrillDiggerSolver where
  "cornerBoard = \<lparr>grid = Blue # replicate 39 Undug, badProb = replicate 40 (2 / 5)\<rparr>"


text \<open>
  Claim C2. Whenever \<open>solve\<close> reaches step 6 with \<open>totalWays > 0\<close>, it returns, and
  the probabilities it leaves on the hidden cells add up to
  \<open>remainingBad = TOTAL_BAD - |revealed bad cells|\<close>. The sum is exact in the arithmetic of
  the model, where every \<open>double\<close> is a real number.
\<close>

theorem solve_conservation:
  assumes wf: "wf_solver s" and tw: "totalWaysAt s = Some tw" and pos: "0 < tw"
  shows "\<exists>s'. solve s = Some s'
              \<and> sum_list (map ((!) (badProb s')) (hiddenCells (grid s)))
                = real_of_int (remainingBadOfGrid (grid s))"
proof -
  let ?c = "classify (grid s) (badProb s)"
  let ?R = "remainingBadOf ?c"
  let ?U = "unknownCells ?c"
  have len: "length (grid s) = TOTAL_CELLS" "length (badProb s) = TOTAL_CELLS"
    using wf by (simp_all add: wf_solver_def)
  from solve_eq [OF wf] obtain cb where
    cb: "combine (grid s) ?c ?R = Some cb" "combined_ok ?c ?R cb"
    "solve s = Some (s\<lparr>badProb := solvedProbs s cb\<rparr>)" by blast
  have ne: "?U \<noteq> []" "\<not> ?R \<le> 0" "constraintCells ?c \<noteq> []"
    using tw by (auto simp: totalWaysAt_def Let_def split: if_splits)
  then have t: "totalWays cb = tw" using tw cb(1) by (simp add: totalWaysAt_def Let_def)
  have sp: "solvedProbs s cb = finalProbs ?c ?R cb"
    using ne by (simp add: solvedProbs_def Let_def)
  have lp: "length (probs ?c) = TOTAL_CELLS" using len by (simp add: classify_probs(1))
  have R: "0 \<le> ?R" using ne(2) by simp
  have p: "0 < totalWays cb" using t pos by simp
  have "sum_list (map ((!) (finalProbs ?c ?R cb)) ?U) = real_of_int ?R"
    by (rule finalProbs_sum [OF cb(2) R p wf_unknown(3) wf_unknown(2) lp])
  moreover have "?U = hiddenCells (grid s)" by (simp add: classify_lists hiddenCells_def)
  ultimately have "sum_list (map ((!) (solvedProbs s cb)) (hiddenCells (grid s)))
                   = real_of_int (remainingBadOfGrid (grid s))"
    using sp grid_counts(1) [OF len(1), of "badProb s"] by simp
  then show ?thesis using cb(3) by simp
qed

theorem solve_conservation_witness:
  "wf_solver cornerBoard \<and> totalWaysAt cornerBoard = Some 28092599280
   \<and> (\<exists>s'. solve cornerBoard = Some s'
          \<and> sum_list (map ((!) (badProb s')) (hiddenCells (grid cornerBoard))) = 16)"
proof -
  have wf: "wf_solver cornerBoard" by (simp add: wf_solver_def cornerBoard_def TOTAL_CELLS_40)
  have tw: "totalWaysAt cornerBoard = Some 28092599280" by code_simp
  have v: "remainingBadOfGrid (grid cornerBoard) = 16" by code_simp
  from solve_conservation [OF wf tw] v wf tw show ?thesis by simp
qed

end
